theory Spec2Isabelle
  imports Complex_Main
begin

section \<open>Data model of the accessibility engine (src/generic/vacc.c)\<close>

text \<open>
  The C type \<open>double\<close> is modelled by the real numbers (exact arithmetic: no rounding,
  no infinities, no NaN) and the C type \<open>int\<close> by the unbounded integers (no wrap-around).
  Every statement below is a statement about this idealised arithmetic.

  A failed \<open>VASSERT\<close> aborts the process, an index outside an array is undefined behaviour
  in C, and \<open>Vacc_ctor2\<close> reports a bad grid size by returning 0. All three are results of
  the sum type \<open>error + 'a\<close>.

  The allocator \<open>Vmem_malloc\<close> is not among the source files at hand. Every allocation
  is taken to succeed, so a \<open>VASSERT\<close> on its result never fails here. What it returns
  for zero entries is not known from the source: \<open>Vacc_sphere\<close> asks for that when no ring
  holds a point, and \<open>Vacc_ctor2\<close> for an empty list of atoms. The statements below about
  sampling the quadrature sphere are therefore made for a sphere with at least one point.
\<close>

datatype error = ConfigError | AssertionFailure | OutOfBounds

type_synonym 'a result = "error + 'a"

definition bind_result :: "'a result \<Rightarrow> ('a \<Rightarrow> 'b result) \<Rightarrow> 'b result" where
  "bind_result m f = (case m of Inl e \<Rightarrow> Inl e | Inr x \<Rightarrow> f x)"

type_synonym vec3 = "real \<times> real \<times> real"

text \<open>
  Modelled from the spec: the macros \<open>VSQR\<close>, \<open>VMIN2\<close>, \<open>VMAX2\<close>, \<open>VSQRT\<close>, \<open>VSIN\<close> and
  \<open>VCOS\<close> are not defined in the source files at hand; the spec reads them as the square,
  the minimum and the maximum (the ranges of cells are clamped), the square root, the
  sine and the cosine. \<open>VMAX2r\<close> is \<open>VMAX2\<close> at the type of the reals.
\<close>

definition VSQR :: "real \<Rightarrow> real" where
  "VSQR x = x * x"

definition VMIN2 :: "int \<Rightarrow> int \<Rightarrow> int" where
  "VMIN2 x y = (if x \<le> y then x else y)"

definition VMAX2 :: "int \<Rightarrow> int \<Rightarrow> int" where
  "VMAX2 x y = (if x \<ge> y then x else y)"

definition VMAX2r :: "real \<Rightarrow> real \<Rightarrow> real" where
  "VMAX2r x y = (if x \<ge> y then x else y)"

text \<open>The C cast \<open>(int) x\<close> of a double truncates toward zero.\<close>

definition int_of_double :: "real \<Rightarrow> int" where
  "int_of_double x = (if 0 \<le> x then \<lfloor>x\<rfloor> else \<lceil>x\<rceil>)"

text \<open>
  Modelled from the spec: the macro \<open>VRINT\<close> is not defined in the source files at hand;
  the spec reads it as rounding to the nearest integer.
\<close>

definition VRINT :: "real \<Rightarrow> int" where
  "VRINT x = round x"

text \<open>
  Modelled from the spec: the atom list and its accessors (\<open>Valist_getNumberAtoms\<close>,
  \<open>Valist_getAtom\<close>, \<open>Vatom_getPosition\<close>, \<open>Vatom_getRadius\<close>) belong to an external
  collaborator. An atom is a position and a radius, the list is ordered, and an atom's
  identifier is its index in the list.
\<close>

record Vatom =
  position :: vec3
  radius :: real

type_synonym Valist = "Vatom list"

definition Valist_getNumberAtoms :: "Valist \<Rightarrow> int" where
  "Valist_getNumberAtoms al = int (length al)"

definition Valist_getAtom :: "Valist \<Rightarrow> int \<Rightarrow> Vatom result" where
  "Valist_getAtom al i =
     (if 0 \<le> i \<and> i < int (length al) then Inr (al ! nat i) else Inl OutOfBounds)"

text \<open>Reading and writing a C array at an integer index.\<close>

definition array_get :: "'a list \<Rightarrow> int \<Rightarrow> 'a result" where
  "array_get xs i =
     (if 0 \<le> i \<and> i < int (length xs) then Inr (xs ! nat i) else Inl OutOfBounds)"

definition array_set :: "'a list \<Rightarrow> int \<Rightarrow> 'a \<Rightarrow> 'a list result" where
  "array_set xs i v =
     (if 0 \<le> i \<and> i < int (length xs) then Inr (xs[nat i := v]) else Inl OutOfBounds)"

text \<open>
  The structure \<open>Vacc\<close>. The field \<open>ngrid\<close> is \<open>thee->n\<close>, the number of grid cells; the
  memory manager \<open>vmem\<close> is left out.
\<close>

record Vacc =
  alist :: Valist
  nx :: int
  ny :: int
  nz :: int
  ngrid :: int
  max_radius :: real
  hx :: real
  hy :: real
  hzed :: real
  grid_lower_corner :: vec3
  natoms :: "int list"
  atomIDs :: "int list list"
  atomFlags :: "int list"
  sphere :: "vec3 list"
  nsphere :: int
  area :: "real list"

section \<open>The smoothed characteristic function of one atom\<close>

text \<open>The squared distance \<open>VSQR(a0-c0) + VSQR(a1-c1) + VSQR(a2-c2)\<close> of two points.\<close>

definition dist2 :: "vec3 \<Rightarrow> vec3 \<Rightarrow> real" where
  "dist2 a c =
     (case a of (a0, a1, a2) \<Rightarrow> case c of (c0, c1, c2) \<Rightarrow>
        VSQR (a0 - c0) + VSQR (a1 - c1) + VSQR (a2 - c2))"

definition Vacc_splineAccAtom :: "Vacc \<Rightarrow> vec3 \<Rightarrow> real \<Rightarrow> real \<Rightarrow> int \<Rightarrow> real result" where
  "Vacc_splineAccAtom thee center win infrad atomID =
     (let w2i = 1 / (win * win);
          w3i = 1 / (win * win * win)
      in bind_result (Valist_getAtom (alist thee) atomID) (\<lambda>atom.
           let apos = position atom in
           if radius atom > 1 then
             (let arad = radius atom + infrad;
                  stot = arad + win;
                  sctot = VMAX2r 0 (arad - win);
                  dist = sqrt (dist2 apos center)
              in if dist \<le> sctot then Inr 0
                 else if dist \<ge> stot then Inr 1
                 else (let sm = dist - arad + win;
                           sm2 = VSQR sm
                       in Inr (0.75 * sm2 * w2i - 0.25 * sm * sm2 * w3i)))
           else Inr 1))"

definition Vacc_splineAccGradAtom :: "Vacc \<Rightarrow> vec3 \<Rightarrow> real \<Rightarrow> real \<Rightarrow> int \<Rightarrow> vec3 result" where
  "Vacc_splineAccGradAtom thee center win infrad atomID =
     (let w2i = 1 / (win * win);
          w3i = 1 / (win * win * win)
      in bind_result (Valist_getAtom (alist thee) atomID) (\<lambda>atom.
           let apos = position atom in
           if radius atom > 0 then
             (let arad = radius atom + infrad;
                  dist = sqrt (dist2 apos center)
              in if dist \<le> arad - win then Inr (0, 0, 0)
                 else if dist \<ge> arad + win then Inr (0, 0, 0)
                 else (let sm = dist - arad + win;
                           sm2 = VSQR sm;
                           mychi = 0.75 * sm2 * w2i - 0.25 * sm * sm2 * w3i;
                           mygrad = 1.5 * sm * w2i - 0.75 * sm2 * w3i
                       in if mychi > 0 then
                            (case center of (c0, c1, c2) \<Rightarrow> case apos of (a0, a1, a2) \<Rightarrow>
                               Inr (- (mygrad / mychi) * ((c0 - a0) / dist),
                                    - (mygrad / mychi) * ((c1 - a1) / dist),
                                    - (mygrad / mychi) * ((c2 - a2) / dist)))
                          else Inl AssertionFailure))
           else Inr (0, 0, 0)))"

text \<open>
  For the statements: the value \<open>Vacc_splineAccAtom\<close> computes for an atom of radius above
  1, as a function of \<open>arad\<close>, the window and the distance \<open>dist\<close> alone.
\<close>

definition window_value :: "real \<Rightarrow> real \<Rightarrow> real \<Rightarrow> real" where
  "window_value arad win d =
     (if d \<le> VMAX2r 0 (arad - win) then 0
      else if d \<ge> arad + win then 1
      else (let sm = d - arad + win;
                sm2 = VSQR sm
            in 0.75 * sm2 * (1 / (win * win)) - 0.25 * sm * sm2 * (1 / (win * win * win))))"

section \<open>Locating a point on the grid\<close>

text \<open>
  Every query starts with the same three lines converting the point to grid coordinates,
  the same test whether these are on the grid, and the same natural array coordinate.
\<close>

definition centeri :: "Vacc \<Rightarrow> vec3 \<Rightarrow> int" where
  "centeri thee center = int_of_double ((fst center - fst (grid_lower_corner thee)) / hx thee)"

definition centerj :: "Vacc \<Rightarrow> vec3 \<Rightarrow> int" where
  "centerj thee center =
     int_of_double ((fst (snd center) - fst (snd (grid_lower_corner thee))) / hy thee)"

definition centerk :: "Vacc \<Rightarrow> vec3 \<Rightarrow> int" where
  "centerk thee center =
     int_of_double ((snd (snd center) - snd (snd (grid_lower_corner thee))) / hzed thee)"

definition off_grid :: "Vacc \<Rightarrow> vec3 \<Rightarrow> bool" where
  "off_grid thee center \<longleftrightarrow>
     centeri thee center < 0 \<or> centeri thee center \<ge> nx thee \<or>
     centerj thee center < 0 \<or> centerj thee center \<ge> ny thee \<or>
     centerk thee center < 0 \<or> centerk thee center \<ge> nz thee"

definition cell_ui :: "Vacc \<Rightarrow> vec3 \<Rightarrow> int" where
  "cell_ui thee center =
     nz thee * ny thee * centeri thee center + nz thee * centerj thee center
       + centerk thee center"

section \<open>The discrete accessibility predicates\<close>

text \<open>
  A loop \<open>for (iatom=0; iatom<natoms[ui]; iatom++)\<close> is a recursion over the list of the
  values \<open>iatom\<close> takes, \<open>[0..natoms[ui]-1]\<close>.
\<close>

fun vdwAcc_loop :: "Vacc \<Rightarrow> vec3 \<Rightarrow> int \<Rightarrow> int list \<Rightarrow> real result" where
  "vdwAcc_loop thee center ui [] = Inr 1"
| "vdwAcc_loop thee center ui (iatom # rest) =
     bind_result (array_get (atomIDs thee) ui) (\<lambda>ids.
     bind_result (array_get ids iatom) (\<lambda>atomID.
     bind_result (Valist_getAtom (alist thee) atomID) (\<lambda>atom.
       let apos = position atom;
           dist = dist2 center apos
       in if dist < VSQR (radius atom) then Inr 0
          else vdwAcc_loop thee center ui rest)))"

definition Vacc_vdwAcc :: "Vacc \<Rightarrow> vec3 \<Rightarrow> real result" where
  "Vacc_vdwAcc thee center =
     (if off_grid thee center then Inr 1
      else let ui = cell_ui thee center
           in bind_result (array_get (natoms thee) ui) (\<lambda>cnt.
                vdwAcc_loop thee center ui [0..cnt - 1]))"

fun ivdwAccExclus_loop :: "Vacc \<Rightarrow> vec3 \<Rightarrow> real \<Rightarrow> int \<Rightarrow> int \<Rightarrow> int list \<Rightarrow> int result" where
  "ivdwAccExclus_loop thee center rad atomID ui [] = Inr 1"
| "ivdwAccExclus_loop thee center rad atomID ui (iatom # rest) =
     bind_result (array_get (atomIDs thee) ui) (\<lambda>ids.
     bind_result (array_get ids iatom) (\<lambda>aid.
       if aid \<noteq> atomID then
         bind_result (Valist_getAtom (alist thee) aid) (\<lambda>atom.
           let apos = position atom;
               dist = dist2 apos center
           in if radius atom > 0 \<and> dist < VSQR (radius atom + rad) then Inr 0
              else ivdwAccExclus_loop thee center rad atomID ui rest)
       else ivdwAccExclus_loop thee center rad atomID ui rest))"

definition ivdwAccExclus :: "Vacc \<Rightarrow> vec3 \<Rightarrow> real \<Rightarrow> int \<Rightarrow> int result" where
  "ivdwAccExclus thee center rad atomID =
     (if rad > max_radius thee then Inl AssertionFailure
      else if off_grid thee center then Inr 1
      else let ui = cell_ui thee center
           in bind_result (array_get (natoms thee) ui) (\<lambda>cnt.
                ivdwAccExclus_loop thee center rad atomID ui [0..cnt - 1]))"

definition Vacc_ivdwAcc :: "Vacc \<Rightarrow> vec3 \<Rightarrow> real \<Rightarrow> real result" where
  "Vacc_ivdwAcc thee center rad =
     bind_result (ivdwAccExclus thee center rad (- 1)) (\<lambda>r. Inr (real_of_int r))"

text \<open>The sample point \<open>radius * sphere[ipt] + center\<close>.\<close>

definition sphere_vec :: "real \<Rightarrow> vec3 \<Rightarrow> vec3 \<Rightarrow> vec3" where
  "sphere_vec rad s center =
     (case s of (s0, s1, s2) \<Rightarrow> case center of (c0, c1, c2) \<Rightarrow>
        (rad * s0 + c0, rad * s1 + c1, rad * s2 + c2))"

text \<open>
  For the statements about the loops: the test an atom of the bucket has to pass to make
  the point inaccessible, in \<open>Vacc_vdwAcc\<close> and in \<open>ivdwAccExclus\<close>.
\<close>

definition vdw_overlap :: "Vacc \<Rightarrow> vec3 \<Rightarrow> int \<Rightarrow> bool" where
  "vdw_overlap thee center a \<longleftrightarrow>
     dist2 center (position (alist thee ! nat a)) < VSQR (radius (alist thee ! nat a))"

definition ivdw_overlap :: "Vacc \<Rightarrow> vec3 \<Rightarrow> real \<Rightarrow> int \<Rightarrow> int \<Rightarrow> bool" where
  "ivdw_overlap thee center rad atomID a \<longleftrightarrow>
     a \<noteq> atomID \<and> radius (alist thee ! nat a) > 0 \<and>
     dist2 (position (alist thee ! nat a)) center < VSQR (radius (alist thee ! nat a) + rad)"

fun molAcc_loop :: "Vacc \<Rightarrow> vec3 \<Rightarrow> real \<Rightarrow> int list \<Rightarrow> real result" where
  "molAcc_loop thee center rad [] = Inr 0"
| "molAcc_loop thee center rad (ipt # rest) =
     bind_result (array_get (sphere thee) ipt) (\<lambda>s.
     bind_result (Vacc_ivdwAcc thee (sphere_vec rad s center) rad) (\<lambda>a.
       if a \<noteq> 0 then Inr 1 else molAcc_loop thee center rad rest))"

definition Vacc_molAcc :: "Vacc \<Rightarrow> vec3 \<Rightarrow> real \<Rightarrow> real result" where
  "Vacc_molAcc thee center rad =
     bind_result (Vacc_ivdwAcc thee center rad) (\<lambda>a.
       if a = 1 then Inr 1
       else bind_result (Vacc_vdwAcc thee center) (\<lambda>b.
         if b = 0 then Inr 0
         else molAcc_loop thee center rad [0..nsphere thee - 1]))"

fun fastMolAcc_loop :: "Vacc \<Rightarrow> vec3 \<Rightarrow> real \<Rightarrow> int list \<Rightarrow> real result" where
  "fastMolAcc_loop thee center rad [] = Inr 0"
| "fastMolAcc_loop thee center rad (ipt # rest) =
     bind_result (array_get (sphere thee) ipt) (\<lambda>s.
     bind_result (Vacc_ivdwAcc thee (sphere_vec rad s center) rad) (\<lambda>a.
       if a \<noteq> 0 then Inr 1 else fastMolAcc_loop thee center rad rest))"

definition Vacc_fastMolAcc :: "Vacc \<Rightarrow> vec3 \<Rightarrow> real \<Rightarrow> real result" where
  "Vacc_fastMolAcc thee center rad = fastMolAcc_loop thee center rad [0..nsphere thee - 1]"

section \<open>The smoothed characteristic function\<close>

text \<open>
  Modelled from the spec: the constant \<open>VSMALL\<close> is not defined in the source files at
  hand; the spec calls it a small epsilon. It is the first argument of \<open>Vacc_splineAcc\<close>.

  \<open>Vacc_splineAcc\<close> writes the scratch array \<open>atomFlags\<close>, so it returns the structure
  along with the value.
\<close>

fun splineAcc_reset :: "Vacc \<Rightarrow> int \<Rightarrow> int list \<Rightarrow> int list \<Rightarrow> int list result" where
  "splineAcc_reset thee ui [] flags = Inr flags"
| "splineAcc_reset thee ui (iatom # rest) flags =
     bind_result (array_get (atomIDs thee) ui) (\<lambda>ids.
     bind_result (array_get ids iatom) (\<lambda>aid.
     bind_result (array_set flags aid 0) (\<lambda>flags'.
       splineAcc_reset thee ui rest flags')))"

fun splineAcc_loop ::
  "real \<Rightarrow> Vacc \<Rightarrow> vec3 \<Rightarrow> real \<Rightarrow> real \<Rightarrow> int \<Rightarrow> int list \<Rightarrow> int list \<Rightarrow> real
     \<Rightarrow> (real \<times> int list) result" where
  "splineAcc_loop vsmall thee center win infrad ui [] flags val = Inr (val, flags)"
| "splineAcc_loop vsmall thee center win infrad ui (iatom # rest) flags val =
     bind_result (array_get (atomIDs thee) ui) (\<lambda>ids.
     bind_result (array_get ids iatom) (\<lambda>aid.
     bind_result (array_get flags aid) (\<lambda>flag.
       if flag = 0 then
         bind_result (array_set flags aid 1) (\<lambda>flags'.
         bind_result (Vacc_splineAccAtom thee center win infrad aid) (\<lambda>a.
           let val' = val * a
           in if val' < vsmall then Inr (val', flags')
              else splineAcc_loop vsmall thee center win infrad ui rest flags' val'))
       else splineAcc_loop vsmall thee center win infrad ui rest flags val)))"

definition Vacc_splineAcc ::
  "real \<Rightarrow> Vacc \<Rightarrow> vec3 \<Rightarrow> real \<Rightarrow> real \<Rightarrow> (real \<times> Vacc) result" where
  "Vacc_splineAcc vsmall thee center win infrad =
     (if max_radius thee < win + infrad then Inl AssertionFailure
      else if off_grid thee center then Inr (1, thee)
      else let ui = cell_ui thee center
           in bind_result (array_get (natoms thee) ui) (\<lambda>cnt.
              bind_result (splineAcc_reset thee ui [0..cnt - 1] (atomFlags thee)) (\<lambda>flags.
              bind_result
                (splineAcc_loop vsmall thee center win infrad ui [0..cnt - 1] flags 1)
                (\<lambda>(val, flags'). Inr (val, thee\<lparr>atomFlags := flags'\<rparr>)))))"

text \<open>
  For the statements about \<open>Vacc_splineAcc\<close>: the factor of the atom with identifier \<open>a\<close>,
  the atoms of a bucket at their first occurrence (those not seen before), and the
  product that is abandoned as soon as it falls below \<open>VSMALL\<close>.
\<close>

definition atom_factor :: "Vacc \<Rightarrow> vec3 \<Rightarrow> real \<Rightarrow> real \<Rightarrow> int \<Rightarrow> real" where
  "atom_factor thee center win infrad a =
     (let atom = alist thee ! nat a
      in if radius atom > 1
         then window_value (radius atom + infrad) win (sqrt (dist2 (position atom) center))
         else 1)"

fun first_occurrences :: "int list \<Rightarrow> int list \<Rightarrow> int list" where
  "first_occurrences seen [] = []"
| "first_occurrences seen (a # as) =
     (if a \<in> set seen then first_occurrences seen as
      else a # first_occurrences (a # seen) as)"

fun running_product :: "real \<Rightarrow> real \<Rightarrow> real list \<Rightarrow> real" where
  "running_product vsmall val [] = val"
| "running_product vsmall val (a # as) =
     (let val' = val * a
      in if val' < vsmall then val' else running_product vsmall val' as)"

section \<open>The quadrature points on the unit sphere\<close>

text \<open>
  \<open>Vacc_sphere\<close> receives the requested number of points in \<open>*npts\<close> and stores the actual
  number there; the model returns the array of points together with that number. The
  constant \<open>Vunit_pi\<close> is the number \<open>pi\<close>. The first loop counts, then an array of that
  many points is allocated (its entries are uninitialised, shown here as the origin), and
  the second loop writes the points by index.
\<close>

fun sphere_count :: "real \<Rightarrow> int \<Rightarrow> int list \<Rightarrow> int \<Rightarrow> int" where
  "sphere_count dtheta nphimax [] nactual = nactual"
| "sphere_count dtheta nphimax (itheta # rest) nactual =
     (let theta = dtheta * real_of_int itheta;
          sintheta = sin theta;
          nphi = VRINT (sintheta * real_of_int nphimax)
      in sphere_count dtheta nphimax rest (nactual + nphi))"

fun sphere_ring ::
  "real \<Rightarrow> real \<Rightarrow> real \<Rightarrow> int list \<Rightarrow> vec3 list \<times> int \<Rightarrow> (vec3 list \<times> int) result" where
  "sphere_ring dphi sintheta costheta [] st = Inr st"
| "sphere_ring dphi sintheta costheta (iphi # rest) st =
     (let phi = dphi * real_of_int iphi;
          sinphi = sin phi;
          cosphi = cos phi
      in bind_result
           (array_set (fst st) (snd st) (cosphi * sintheta, sinphi * sintheta, costheta))
           (\<lambda>points. sphere_ring dphi sintheta costheta rest (points, snd st + 1)))"

fun sphere_assign ::
  "real \<Rightarrow> int \<Rightarrow> int list \<Rightarrow> vec3 list \<times> int \<Rightarrow> (vec3 list \<times> int) result" where
  "sphere_assign dtheta nphimax [] st = Inr st"
| "sphere_assign dtheta nphimax (itheta # rest) st =
     (let theta = dtheta * real_of_int itheta;
          sintheta = sin theta;
          costheta = cos theta;
          nphi = VRINT (sintheta * real_of_int nphimax)
      in if nphi \<noteq> 0 then
           (let dphi = 2 * pi / real_of_int nphi
            in bind_result (sphere_ring dphi sintheta costheta [0..nphi - 1] st)
                 (\<lambda>st'. sphere_assign dtheta nphimax rest st'))
         else sphere_assign dtheta nphimax rest st)"

definition Vacc_sphere :: "int \<Rightarrow> (vec3 list \<times> int) result" where
  "Vacc_sphere npts =
     (let frac = real_of_int npts / 4;
          ntheta = VRINT (sqrt (pi * frac));
          dtheta = pi / real_of_int ntheta;
          nphimax = 2 * ntheta;
          nactual = sphere_count dtheta nphimax [0..ntheta - 1] 0;
          points = replicate (nat nactual) (0, 0, 0)
      in sphere_assign dtheta nphimax [0..ntheta - 1] (points, 0))"

text \<open>For the proofs: the points the second loop writes for ring \<open>itheta\<close>.\<close>

definition ring_points :: "real \<Rightarrow> int \<Rightarrow> int \<Rightarrow> vec3 list" where
  "ring_points dtheta nphimax itheta =
     (let theta = dtheta * real_of_int itheta;
          sintheta = sin theta;
          costheta = cos theta;
          nphi = VRINT (sintheta * real_of_int nphimax);
          dphi = 2 * pi / real_of_int nphi
      in map (\<lambda>iphi. (cos (dphi * real_of_int iphi) * sintheta,
                      sin (dphi * real_of_int iphi) * sintheta, costheta))
           [0..nphi - 1])"

text \<open>
  The algorithm as the specification words it, to compare \<open>Vacc_sphere\<close> with: the number
  of rings, the number of points on ring \<open>i\<close>, the points of ring \<open>i\<close> evenly spaced in
  azimuth, and all points ring after ring.
\<close>

definition spec_ntheta :: "int \<Rightarrow> int" where
  "spec_ntheta n = round (sqrt (pi * real_of_int n / 4))"

definition spec_nphi :: "int \<Rightarrow> int \<Rightarrow> int" where
  "spec_nphi ntheta i = round (sin (real_of_int i * pi / real_of_int ntheta) * 2 * real_of_int ntheta)"

definition spec_ring :: "int \<Rightarrow> int \<Rightarrow> vec3 list" where
  "spec_ring ntheta i =
     (let theta = real_of_int i * pi / real_of_int ntheta;
          nphi = spec_nphi ntheta i
      in map (\<lambda>k. let phi = real_of_int k * (2 * pi / real_of_int nphi)
                  in (cos phi * sin theta, sin phi * sin theta, cos theta))
           [0..nphi - 1])"

definition spec_sphere :: "int \<Rightarrow> vec3 list" where
  "spec_sphere n = concat (map (spec_ring (spec_ntheta n)) [0..spec_ntheta n - 1])"

section \<open>Construction of the grid\<close>

text \<open>
  Modelled from the spec: the constant \<open>VLARGE\<close> is not defined in the source files at
  hand; it starts the search for the coordinate extents and is the first argument of
  \<open>Vacc_ctor2\<close>.

  The loops over the atoms run over exactly the indices of the atom list, so their
  \<open>Valist_getAtom(alist, i)\<close> is the list's element \<open>i\<close>.
\<close>

record extents =
  x_min :: real
  y_min :: real
  z_min :: real
  x_max :: real
  y_max :: real
  z_max :: real
  rmax :: real

definition extents_step :: "extents \<Rightarrow> Vatom \<Rightarrow> extents" where
  "extents_step e atom =
     (case position atom of (x, y, z) \<Rightarrow>
        \<lparr> x_min = (if x < x_min e then x else x_min e),
          y_min = (if y < y_min e then y else y_min e),
          z_min = (if z < z_min e then z else z_min e),
          x_max = (if x > x_max e then x else x_max e),
          y_max = (if y > y_max e then y else y_max e),
          z_max = (if z > z_max e then z else z_max e),
          rmax = (if radius atom > rmax e then radius atom else rmax e) \<rparr>)"

definition find_extents :: "real \<Rightarrow> Valist \<Rightarrow> extents" where
  "find_extents vlarge al =
     foldl extents_step
       \<lparr> x_min = vlarge, y_min = vlarge, z_min = vlarge,
         x_max = - vlarge, y_max = - vlarge, z_max = - vlarge, rmax = - 1 \<rparr> al"

text \<open>
  The grid geometry an atom is assigned with: the three spacings, the lower corner, the
  three dimensions and the maximal probe radius.
\<close>

record grid =
  g_hx :: real
  g_hy :: real
  g_hzed :: real
  g_lower :: vec3
  g_nx :: int
  g_ny :: int
  g_nz :: int
  g_max_radius :: real

definition i_max :: "grid \<Rightarrow> Vatom \<Rightarrow> int" where
  "i_max g atom =
     VMIN2 \<lceil>(fst (position atom) - fst (g_lower g) + (radius atom + g_max_radius g)) / g_hx g\<rceil>
       (g_nx g - 1)"

definition i_min :: "grid \<Rightarrow> Vatom \<Rightarrow> int" where
  "i_min g atom =
     VMAX2 \<lfloor>(fst (position atom) - fst (g_lower g) - (radius atom + g_max_radius g)) / g_hx g\<rfloor> 0"

definition j_max :: "grid \<Rightarrow> Vatom \<Rightarrow> int" where
  "j_max g atom =
     VMIN2 \<lceil>(fst (snd (position atom)) - fst (snd (g_lower g))
              + (radius atom + g_max_radius g)) / g_hy g\<rceil>
       (g_ny g - 1)"

definition j_min :: "grid \<Rightarrow> Vatom \<Rightarrow> int" where
  "j_min g atom =
     VMAX2 \<lfloor>(fst (snd (position atom)) - fst (snd (g_lower g))
              - (radius atom + g_max_radius g)) / g_hy g\<rfloor> 0"

definition k_max :: "grid \<Rightarrow> Vatom \<Rightarrow> int" where
  "k_max g atom =
     VMIN2 \<lceil>(snd (snd (position atom)) - snd (snd (g_lower g))
              + (radius atom + g_max_radius g)) / g_hzed g\<rceil>
       (g_nz g - 1)"

definition k_min :: "grid \<Rightarrow> Vatom \<Rightarrow> int" where
  "k_min g atom =
     VMAX2 \<lfloor>(snd (snd (position atom)) - snd (snd (g_lower g))
              - (radius atom + g_max_radius g)) / g_hzed g\<rfloor> 0"

text \<open>
  The three nested loops over \<open>ii\<close>, \<open>jj\<close> and \<open>kk\<close> visit these natural array coordinates
  \<open>ui\<close>, in this order.
\<close>

definition atom_cells :: "grid \<Rightarrow> Vatom \<Rightarrow> int list" where
  "atom_cells g atom =
     concat (map (\<lambda>ii. concat (map (\<lambda>jj. map (\<lambda>kk.
         g_nz g * g_ny g * ii + g_nz g * jj + kk)
       [k_min g atom..k_max g atom]) [j_min g atom..j_max g atom]))
       [i_min g atom..i_max g atom])"

text \<open>The grid geometry stored in a constructed \<open>Vacc\<close>.\<close>

definition Vacc_grid :: "Vacc \<Rightarrow> grid" where
  "Vacc_grid thee =
     \<lparr> g_hx = hx thee, g_hy = hy thee, g_hzed = hzed thee,
       g_lower = grid_lower_corner thee,
       g_nx = nx thee, g_ny = ny thee, g_nz = nz thee, g_max_radius = max_radius thee \<rparr>"

text \<open>A loop whose body may fail, over the list of the values its index takes.\<close>

fun for_each :: "('s \<Rightarrow> 'a \<Rightarrow> 's result) \<Rightarrow> 'a list \<Rightarrow> 's \<Rightarrow> 's result" where
  "for_each body [] s = Inr s"
| "for_each body (x # xs) s = bind_result (body s x) (for_each body xs)"

text \<open>First pass: \<open>(thee->natoms[ui])++\<close>. The total \<open>totatoms\<close> is only printed.\<close>

definition count_cell :: "int list \<Rightarrow> int \<Rightarrow> int list result" where
  "count_cell cnts ui =
     bind_result (array_get cnts ui) (\<lambda>c. array_set cnts ui (c + 1))"

definition count_atom :: "grid \<Rightarrow> Valist \<Rightarrow> int list \<Rightarrow> nat \<Rightarrow> int list result" where
  "count_atom g al cnts i = for_each count_cell (atom_cells g (al ! i)) cnts"

definition count_pass :: "grid \<Rightarrow> Valist \<Rightarrow> int list \<Rightarrow> int list result" where
  "count_pass g al cnts = for_each (count_atom g al) [0..<length al] cnts"

text \<open>
  Allocation: a cell with a positive count gets an array of that many atom identifiers
  (uninitialised, shown as 0), any other cell keeps the null pointer, shown as the empty
  array; the counters are cleared.
\<close>

definition alloc_cell :: "int \<Rightarrow> int list" where
  "alloc_cell c = (if c > 0 then replicate (nat c) 0 else [])"

text \<open>Second pass: \<open>thee->atomIDs[ui][thee->natoms[ui]] = i; (thee->natoms[ui])++\<close>.\<close>

definition fill_cell :: "int \<Rightarrow> int list \<times> int list list \<Rightarrow> int \<Rightarrow> (int list \<times> int list list) result" where
  "fill_cell i st ui =
     bind_result (array_get (fst st) ui) (\<lambda>k.
     bind_result (array_get (snd st) ui) (\<lambda>ids.
     bind_result (array_set ids k i) (\<lambda>ids'.
     bind_result (array_set (snd st) ui ids') (\<lambda>atomIDs'.
     bind_result (array_set (fst st) ui (k + 1)) (\<lambda>natoms'.
       Inr (natoms', atomIDs'))))))"

definition fill_atom ::
  "grid \<Rightarrow> Valist \<Rightarrow> int list \<times> int list list \<Rightarrow> nat \<Rightarrow> (int list \<times> int list list) result" where
  "fill_atom g al st i = for_each (fill_cell (int i)) (atom_cells g (al ! i)) st"

definition fill_pass ::
  "grid \<Rightarrow> Valist \<Rightarrow> int list \<times> int list list \<Rightarrow> (int list \<times> int list list) result" where
  "fill_pass g al st = for_each (fill_atom g al) [0..<length al] st"

text \<open>
  For the statements about the buckets: the atoms, among the first \<open>m\<close> of the list, whose
  range of grid points covers the cell with natural array coordinate \<open>u\<close>, in ascending
  order of their index.
\<close>

definition cell_atoms :: "grid \<Rightarrow> Valist \<Rightarrow> nat \<Rightarrow> int \<Rightarrow> nat list" where
  "cell_atoms g al m u = filter (\<lambda>i. u \<in> set (atom_cells g (al ! i))) [0..<m]"

text \<open>
  The state of the second pass after the atoms \<open>0, \<dots>, m - 1\<close>: each counter is the number
  of these atoms assigned to its cell, each array has the size counted in the first pass,
  and its first entries are these atoms.
\<close>

definition fill_inv :: "grid \<Rightarrow> Valist \<Rightarrow> nat \<Rightarrow> int list \<times> int list list \<Rightarrow> bool" where
  "fill_inv g al m st \<longleftrightarrow>
     length (fst st) = nat (g_nx g * g_ny g * g_nz g) \<and>
     length (snd st) = nat (g_nx g * g_ny g * g_nz g) \<and>
     (\<forall>k<nat (g_nx g * g_ny g * g_nz g).
        fst st ! k = int (length (cell_atoms g al m (int k))) \<and>
        length (snd st ! k) = length (cell_atoms g al (length al) (int k)) \<and>
        take (length (cell_atoms g al m (int k))) (snd st ! k) = map int (cell_atoms g al m (int k)))"

text \<open>
  The grid spacings (with the comment \<open>2.84 > 2*sqrt(2)\<close>) and the lower corner (with
  the comment \<open>1.42 > sqrt(2)\<close>) that \<open>Vacc_ctor2\<close> sets up from the extents.
\<close>

definition ctor2_grid :: "real \<Rightarrow> Valist \<Rightarrow> real \<Rightarrow> int \<Rightarrow> int \<Rightarrow> int \<Rightarrow> grid" where
  "ctor2_grid vlarge al max_rad nx0 ny0 nz0 =
     (let e = find_extents vlarge al
      in \<lparr> g_hx = (x_max e - x_min e + 2.84 * (rmax e + max_rad)) / real_of_int (nx0 - 1),
           g_hy = (y_max e - y_min e + 2.84 * (rmax e + max_rad)) / real_of_int (ny0 - 1),
           g_hzed = (z_max e - z_min e + 2.84 * (rmax e + max_rad)) / real_of_int (nz0 - 1),
           g_lower = (x_min e - 1.42 * (rmax e + max_rad),
                      y_min e - 1.42 * (rmax e + max_rad),
                      z_min e - 1.42 * (rmax e + max_rad)),
           g_nx = nx0, g_ny = ny0, g_nz = nz0, g_max_radius = max_rad \<rparr>)"

definition Vacc_ctor2 :: "real \<Rightarrow> Valist \<Rightarrow> real \<Rightarrow> int \<Rightarrow> int \<Rightarrow> int \<Rightarrow> int \<Rightarrow> Vacc result" where
  "Vacc_ctor2 vlarge al max_rad nx0 ny0 nz0 nsphere0 =
     (let n0 = nx0 * ny0 * nz0
      in if nx0 < 3 \<or> ny0 < 3 \<or> nz0 < 3 then Inl ConfigError
         else bind_result (Vacc_sphere nsphere0) (\<lambda>(points, nactual).
           let g = ctor2_grid vlarge al max_rad nx0 ny0 nz0
           in bind_result (count_pass g al (replicate (nat n0) 0)) (\<lambda>cnts.
              bind_result (fill_pass g al (map (\<lambda>c. 0) cnts, map alloc_cell cnts))
                (\<lambda>(cnts', ids).
                   Inr \<lparr> alist = al, nx = nx0, ny = ny0, nz = nz0, ngrid = n0,
                         max_radius = max_rad,
                         hx = g_hx g, hy = g_hy g, hzed = g_hzed g,
                         grid_lower_corner = g_lower g,
                         natoms = cnts', atomIDs = ids,
                         atomFlags = replicate (nat n0) 0,
                         sphere = points, nsphere = nactual,
                         area = replicate (length al) 0 \<rparr>))))"

text \<open>
  What the queries rely on in a constructed \<open>Vacc\<close>: the arrays have one entry per grid
  cell, every counter is the length of its cell's array of atom identifiers, these
  identify atoms of the list, and the sphere has \<open>nsphere\<close> points.
\<close>

definition Vacc_wf :: "Vacc \<Rightarrow> bool" where
  "Vacc_wf thee \<longleftrightarrow>
     length (natoms thee) = nat (nx thee * ny thee * nz thee) \<and>
     length (atomIDs thee) = nat (nx thee * ny thee * nz thee) \<and>
     (\<forall>k<length (atomIDs thee).
        natoms thee ! k = int (length (atomIDs thee ! k)) \<and>
        (\<forall>a\<in>set (atomIDs thee ! k). 0 \<le> a \<and> a < int (length (alist thee)))) \<and>
     nsphere thee = int (length (sphere thee))"

text \<open>
  The bucket invariant as the specification words it, to compare the buckets with: the
  sphere of radius \<open>atomRadius + maxProbeRadius\<close> around the atom intersects the
  axis-aligned box of the cell \<open>(ii, jj, kk)\<close>, that is, the distance from the centre of
  the sphere to the box is at most the radius.
\<close>

definition axis_gap :: "real \<Rightarrow> real \<Rightarrow> real \<Rightarrow> real" where
  "axis_gap c lo hi = (if c < lo then lo - c else if hi < c then c - hi else 0)"

definition spec_sphere_meets_cell :: "grid \<Rightarrow> Vatom \<Rightarrow> int \<Rightarrow> int \<Rightarrow> int \<Rightarrow> bool" where
  "spec_sphere_meets_cell g atom ii jj kk \<longleftrightarrow>
     (case g_lower g of (lx, ly, lz) \<Rightarrow> case position atom of (x, y, z) \<Rightarrow>
        VSQR (axis_gap x (lx + real_of_int ii * g_hx g) (lx + real_of_int (ii + 1) * g_hx g))
        + VSQR (axis_gap y (ly + real_of_int jj * g_hy g) (ly + real_of_int (jj + 1) * g_hy g))
        + VSQR (axis_gap z (lz + real_of_int kk * g_hzed g) (lz + real_of_int (kk + 1) * g_hzed g))
        \<le> VSQR (radius atom + g_max_radius g))"

text \<open>
  The structure constructed for one atom of radius 30 at the origin, with maximal probe
  radius 20, on a grid of 3 x 3 x 3 cells, for a request of 4 sphere points, with
  \<open>VLARGE = 1e9\<close>.
\<close>

definition lone_atom :: Vatom where
  "lone_atom = \<lparr> position = (0, 0, 0), radius = 30 \<rparr>"

definition lone_vacc :: Vacc where
  "lone_vacc = projr (Vacc_ctor2 (10 ^ 9) [lone_atom] 20 3 3 3 4)"

section \<open>Solvent-accessible surface area\<close>

text \<open>The constant \<open>VPI\<close> is the number \<open>pi\<close>.\<close>

fun atomSASA_loop :: "Vacc \<Rightarrow> real \<Rightarrow> int \<Rightarrow> vec3 \<Rightarrow> real \<Rightarrow> int list \<Rightarrow> real \<Rightarrow> real result" where
  "atomSASA_loop thee srad iatom tPos tRad [] a = Inr a"
| "atomSASA_loop thee srad iatom tPos tRad (ipt # rest) a =
     bind_result (array_get (sphere thee) ipt) (\<lambda>s.
     bind_result (ivdwAccExclus thee (sphere_vec (tRad + srad) s tPos) srad iatom) (\<lambda>r.
       atomSASA_loop thee srad iatom tPos tRad rest (if r \<noteq> 0 then a + 1 else a)))"

definition Vacc_atomSASA :: "Vacc \<Rightarrow> real \<Rightarrow> int \<Rightarrow> real result" where
  "Vacc_atomSASA thee srad iatom =
     bind_result (Valist_getAtom (alist thee) iatom) (\<lambda>thisAtom.
       let tPos = position thisAtom;
           tRad = radius thisAtom
       in bind_result (atomSASA_loop thee srad iatom tPos tRad [0..nsphere thee - 1] 0) (\<lambda>a.
            Inr (a / real_of_int (nsphere thee) * 4 * pi * (tRad + srad) * (tRad + srad))))"

fun totalSASA_loop :: "Vacc \<Rightarrow> real \<Rightarrow> int list \<Rightarrow> real list \<times> real \<Rightarrow> (real list \<times> real) result" where
  "totalSASA_loop thee rad [] st = Inr st"
| "totalSASA_loop thee rad (i # rest) st =
     bind_result (Vacc_atomSASA thee rad i) (\<lambda>a.
     bind_result (array_set (fst st) i a) (\<lambda>area'.
       totalSASA_loop thee rad rest (area', snd st + a)))"

definition Vacc_totalSASA :: "Vacc \<Rightarrow> real \<Rightarrow> (real \<times> Vacc) result" where
  "Vacc_totalSASA thee rad =
     bind_result
       (totalSASA_loop thee rad [0..Valist_getNumberAtoms (alist thee) - 1] (area thee, 0))
       (\<lambda>(area', a). Inr (a, thee\<lparr>area := area'\<rparr>))"

text \<open>
  The structure constructed for two atoms of radius 30 at the origin, otherwise as for the
  single atom.
\<close>

definition twin_vacc :: Vacc where
  "twin_vacc = projr (Vacc_ctor2 (10 ^ 9) [lone_atom, lone_atom] 20 3 3 3 4)"

text \<open>
  The structure constructed for one atom of radius 1 at the origin with maximal probe
  radius 1, and the one for two atoms of radius 2, at the origin and at \<open>(3, 0, 0)\<close>, with
  maximal probe radius 3; both on 3 x 3 x 3 cells, with 4 sphere points.
\<close>

definition unit_atom :: Vatom where
  "unit_atom = \<lparr> position = (0, 0, 0), radius = 1 \<rparr>"

definition unit_vacc :: Vacc where
  "unit_vacc = projr (Vacc_ctor2 (10 ^ 9) [unit_atom] 1 3 3 3 4)"

definition duo_atoms :: Valist where
  "duo_atoms = [\<lparr> position = (0, 0, 0), radius = 2 \<rparr>, \<lparr> position = (3, 0, 0), radius = 2 \<rparr>]"

definition duo_vacc :: Vacc where
  "duo_vacc = projr (Vacc_ctor2 (10 ^ 9) duo_atoms 3 3 3 3 4)"

text \<open>
  The structure constructed for 28 atoms of radius 30 at the origin, one more than the
  grid of 3 x 3 x 3 has cells, otherwise as for the single atom.
\<close>

definition crowd_vacc :: Vacc where
  "crowd_vacc = projr (Vacc_ctor2 (10 ^ 9) (replicate 28 lone_atom) 20 3 3 3 4)"

section \<open>Basic facts about results, arrays and loops\<close>

lemma bind_result_Inr [simp]: "bind_result (Inr x) f = f x"
  by (simp add: bind_result_def)

lemma bind_result_Inl [simp]: "bind_result (Inl e) f = Inl e"
  by (simp add: bind_result_def)

lemma bind_result_eq_Inr:
  "bind_result m f = Inr y \<longleftrightarrow> (\<exists>x. m = Inr x \<and> f x = Inr y)"
  by (cases m) simp_all

lemma array_get_nat [simp]: "k < length xs \<Longrightarrow> array_get xs (int k) = Inr (xs ! k)"
  by (simp add: array_get_def)

lemma array_set_nat [simp]: "k < length xs \<Longrightarrow> array_set xs (int k) v = Inr (xs[k := v])"
  by (simp add: array_set_def)

lemma array_get_eq_Inr:
  "array_get xs i = Inr x \<longleftrightarrow> 0 \<le> i \<and> i < int (length xs) \<and> x = xs ! nat i"
  by (auto simp: array_get_def)

lemma for_each_append:
  "for_each body (xs @ ys) s = bind_result (for_each body xs s) (for_each body ys)"
  by (induction xs arbitrary: s) (simp_all add: bind_result_def split: sum.splits)

lemma count_cell_nat:
  "k < length cnts \<Longrightarrow> count_cell cnts (int k) = Inr (cnts[k := cnts ! k + 1])"
  by (simp add: count_cell_def)

lemma count_cells:
  "\<forall>u\<in>set uis. 0 \<le> u \<and> u < int (length cnts) \<Longrightarrow>
   \<exists>cnts'. for_each count_cell uis cnts = Inr cnts' \<and> length cnts' = length cnts \<and>
     (\<forall>k<length cnts. cnts' ! k = cnts ! k + int (count_list uis (int k)))"
proof (induction uis arbitrary: cnts)
  case Nil
  then show ?case by simp
next
  case (Cons u uis)
  have "0 \<le> u \<and> u < int (length cnts)" using Cons.prems by simp
  then have "u = int (nat u) \<and> nat u < length cnts" by linarith
  then obtain j where j: "u = int j" "j < length cnts" by blast
  let ?c = "cnts[j := cnts ! j + 1]"
  have "\<forall>u\<in>set uis. 0 \<le> u \<and> u < int (length ?c)" using Cons.prems by simp
  from Cons.IH[OF this] obtain cnts' where c: "for_each count_cell uis ?c = Inr cnts'"
    "length cnts' = length ?c"
    "\<forall>k<length ?c. cnts' ! k = ?c ! k + int (count_list uis (int k))" by blast
  have "for_each count_cell (u # uis) cnts = Inr cnts'"
    using j c(1) by (simp add: count_cell_nat)
  moreover have "\<forall>k<length cnts. cnts' ! k = cnts ! k + int (count_list (u # uis) (int k))"
    using c(3) j by (auto simp: nth_list_update)
  ultimately show ?case using c(2) by simp
qed


subsection \<open>Cells of an atom\<close>

lemma VMIN2_le2 [simp]: "VMIN2 x y \<le> y"
  by (simp add: VMIN2_def)

lemma VMAX2_ge2 [simp]: "y \<le> VMAX2 x y"
  by (simp add: VMAX2_def)

lemma i_range: "0 \<le> i_min g a" "i_max g a \<le> g_nx g - 1"
  by (simp_all add: i_min_def i_max_def VMIN2_def VMAX2_def)

lemma j_range: "0 \<le> j_min g a" "j_max g a \<le> g_ny g - 1"
  by (simp_all add: j_min_def j_max_def VMIN2_def VMAX2_def)

lemma k_range: "0 \<le> k_min g a" "k_max g a \<le> g_nz g - 1"
  by (simp_all add: k_min_def k_max_def VMIN2_def VMAX2_def)

lemma cell_index_bounds:
  fixes ii jj kk :: int
  assumes "0 \<le> ii" "ii \<le> n1 - 1" "0 \<le> jj" "jj \<le> n2 - 1" "0 \<le> kk" "kk \<le> n3 - 1"
  shows "0 \<le> n3 * n2 * ii + n3 * jj + kk" "n3 * n2 * ii + n3 * jj + kk < n1 * n2 * n3"
proof -
  have n: "0 < n1" "0 < n2" "0 < n3" using assms by linarith+
  show "0 \<le> n3 * n2 * ii + n3 * jj + kk" using assms n by simp
  have "n3 * n2 * ii \<le> n3 * n2 * (n1 - 1)"
    using assms n by (intro mult_left_mono) simp_all
  moreover have "n3 * jj \<le> n3 * (n2 - 1)"
    using assms n by (intro mult_left_mono) simp_all
  ultimately have "n3 * n2 * ii + n3 * jj + kk \<le> n3 * n2 * (n1 - 1) + n3 * (n2 - 1) + (n3 - 1)"
    using assms by linarith
  also have "\<dots> = n1 * n2 * n3 - 1" by (simp add: algebra_simps)
  finally show "n3 * n2 * ii + n3 * jj + kk < n1 * n2 * n3" by simp
qed

lemma cell_index_inj:
  fixes ii jj kk ii' jj' kk' :: int
  assumes "0 \<le> jj" "jj < n2" "0 \<le> kk" "kk < n3" "0 \<le> jj'" "jj' < n2" "0 \<le> kk'" "kk' < n3"
    and eq: "n3 * n2 * ii + n3 * jj + kk = n3 * n2 * ii' + n3 * jj' + kk'"
  shows "ii = ii' \<and> jj = jj' \<and> kk = kk'"
proof -
  have n: "0 < n2" "0 < n3" using assms by linarith+
  have e1: "kk + n3 * (n2 * ii + jj) = kk' + n3 * (n2 * ii' + jj')"
    using eq by (simp add: algebra_simps)
  have "(kk + n3 * (n2 * ii + jj)) mod n3 = kk" using assms by simp
  moreover have "(kk' + n3 * (n2 * ii' + jj')) mod n3 = kk'" using assms by simp
  ultimately have k: "kk = kk'" using e1 by simp
  then have "n3 * (n2 * ii + jj) = n3 * (n2 * ii' + jj')" using e1 by simp
  then have "n2 * ii + jj = n2 * ii' + jj'" using n by (simp only: mult_cancel_left) simp
  then have e2: "jj + n2 * ii = jj' + n2 * ii'" by simp
  have "(jj + n2 * ii) mod n2 = jj" using assms by simp
  moreover have "(jj' + n2 * ii') mod n2 = jj'" using assms by simp
  ultimately have j: "jj = jj'" using e2 by simp
  then have "n2 * ii = n2 * ii'" using e2 by simp
  then have "ii = ii'" using n by simp
  then show ?thesis using j k by simp
qed

lemma concat_map2_product:
  "concat (map (\<lambda>jj. map (\<lambda>kk. f jj kk) ks) js) = map (\<lambda>(jj, kk). f jj kk) (List.product js ks)"
  by (induction js) (simp_all add: comp_def)

lemma concat_map3_product:
  "concat (map (\<lambda>ii. concat (map (\<lambda>jj. map (\<lambda>kk. f ii jj kk) ks) js)) ixs) =
     map (\<lambda>(ii, jj, kk). f ii jj kk) (List.product ixs (List.product js ks))"
  by (induction ixs) (simp_all add: concat_map2_product comp_def case_prod_beta)

lemma atom_cells_product:
  "atom_cells g a =
     map (\<lambda>(ii, jj, kk). g_nz g * g_ny g * ii + g_nz g * jj + kk)
       (List.product [i_min g a..i_max g a]
          (List.product [j_min g a..j_max g a] [k_min g a..k_max g a]))"
  unfolding atom_cells_def by (rule concat_map3_product)

lemma atom_cells_iff:
  "ui \<in> set (atom_cells g a) \<longleftrightarrow>
   (\<exists>ii jj kk. i_min g a \<le> ii \<and> ii \<le> i_max g a \<and> j_min g a \<le> jj \<and> jj \<le> j_max g a \<and>
      k_min g a \<le> kk \<and> kk \<le> k_max g a \<and> ui = g_nz g * g_ny g * ii + g_nz g * jj + kk)"
  unfolding atom_cells_product by (force simp: image_iff)

lemma atom_cells_bounds:
  assumes "ui \<in> set (atom_cells g a)"
  shows "0 \<le> ui \<and> ui < g_nx g * g_ny g * g_nz g"
proof -
  from assms obtain ii jj kk where h: "i_min g a \<le> ii" "ii \<le> i_max g a" "j_min g a \<le> jj"
    "jj \<le> j_max g a" "k_min g a \<le> kk" "kk \<le> k_max g a"
    "ui = g_nz g * g_ny g * ii + g_nz g * jj + kk"
    unfolding atom_cells_iff by blast
  have b: "0 \<le> ii" "ii \<le> g_nx g - 1" "0 \<le> jj" "jj \<le> g_ny g - 1" "0 \<le> kk" "kk \<le> g_nz g - 1"
    using h i_range[of g a] j_range[of g a] k_range[of g a] by linarith+
  show ?thesis using cell_index_bounds[OF b] h(7) by simp
qed

lemma atom_cells_distinct: "distinct (atom_cells g a)"
proof -
  let ?P = "List.product [i_min g a..i_max g a]
          (List.product [j_min g a..j_max g a] [k_min g a..k_max g a])"
  have d: "distinct ?P" by (simp add: distinct_product)
  have "inj_on (\<lambda>(ii, jj, kk). g_nz g * g_ny g * ii + g_nz g * jj + kk) (set ?P)"
  proof (rule inj_onI)
    fix p q
    assume pq: "p \<in> set ?P" "q \<in> set ?P"
      and e0: "(case p of (ii, jj, kk) \<Rightarrow> g_nz g * g_ny g * ii + g_nz g * jj + kk) =
               (case q of (ii, jj, kk) \<Rightarrow> g_nz g * g_ny g * ii + g_nz g * jj + kk)"
    obtain ii jj kk where p: "p = (ii, jj, kk)" by (cases p) auto
    obtain ii' jj' kk' where q: "q = (ii', jj', kk')" by (cases q) auto
    have e: "g_nz g * g_ny g * ii + g_nz g * jj + kk = g_nz g * g_ny g * ii' + g_nz g * jj' + kk'"
      using e0 p q by simp
    have b: "0 \<le> jj" "jj < g_ny g" "0 \<le> kk" "kk < g_nz g" "0 \<le> jj'" "jj' < g_ny g"
      "0 \<le> kk'" "kk' < g_nz g"
      using pq p q j_range[of g a] k_range[of g a] by auto
    have "ii = ii' \<and> jj = jj' \<and> kk = kk'" by (rule cell_index_inj[OF b e])
    then show "p = q" using p q by simp
  qed
  with d show ?thesis unfolding atom_cells_product by (simp add: distinct_map)
qed


subsection \<open>The counting pass\<close>

lemma count_list_distinct: "distinct xs \<Longrightarrow> count_list xs x = (if x \<in> set xs then 1 else 0)"
  by (induction xs) auto

lemma cell_atoms_0 [simp]: "cell_atoms g al 0 u = []"
  by (simp add: cell_atoms_def)

lemma cell_atoms_Suc:
  "cell_atoms g al (Suc m) u =
     cell_atoms g al m u @ (if u \<in> set (atom_cells g (al ! m)) then [m] else [])"
  by (simp add: cell_atoms_def)

lemma cell_atoms_length_mono:
  assumes "m \<le> m'"
  shows "length (cell_atoms g al m u) \<le> length (cell_atoms g al m' u)"
proof -
  obtain d where "m' = m + d" using assms le_Suc_ex by blast
  moreover have "[0..<m + d] = [0..<m] @ [m..<m + d]" by (rule upt_add_eq_append) simp
  ultimately have "cell_atoms g al m' u = cell_atoms g al m u @
      filter (\<lambda>i. u \<in> set (atom_cells g (al ! i))) [m..<m + d]"
    unfolding cell_atoms_def by (simp only: filter_append)
  then show ?thesis by simp
qed

lemma count_atom_ok:
  assumes "length cnts = nat (g_nx g * g_ny g * g_nz g)"
  shows "\<exists>cnts'. count_atom g al cnts i = Inr cnts' \<and> length cnts' = length cnts \<and>
     (\<forall>k<length cnts. cnts' ! k = cnts ! k + (if int k \<in> set (atom_cells g (al ! i)) then 1 else 0))"
proof -
  have "\<forall>u\<in>set (atom_cells g (al ! i)). 0 \<le> u \<and> u < int (length cnts)"
  proof
    fix u assume "u \<in> set (atom_cells g (al ! i))"
    then have "0 \<le> u \<and> u < g_nx g * g_ny g * g_nz g" by (rule atom_cells_bounds)
    then show "0 \<le> u \<and> u < int (length cnts)" using assms by linarith
  qed
  from count_cells[OF this] obtain cnts' where c:
    "for_each count_cell (atom_cells g (al ! i)) cnts = Inr cnts'" "length cnts' = length cnts"
    "\<forall>k<length cnts. cnts' ! k = cnts ! k + int (count_list (atom_cells g (al ! i)) (int k))"
    by blast
  have "\<forall>k<length cnts. cnts' ! k = cnts ! k + (if int k \<in> set (atom_cells g (al ! i)) then 1 else 0)"
    using c(3) by (simp add: count_list_distinct[OF atom_cells_distinct])
  then show ?thesis using c(1,2) unfolding count_atom_def by blast
qed

lemma count_pass_prefix:
  assumes "length cnts0 = nat (g_nx g * g_ny g * g_nz g)"
  shows "\<exists>cnts. for_each (count_atom g al) [0..<m] cnts0 = Inr cnts \<and> length cnts = length cnts0 \<and>
     (\<forall>k<length cnts0. cnts ! k = cnts0 ! k + int (length (cell_atoms g al m (int k))))"
proof (induction m)
  case 0
  then show ?case by simp
next
  case (Suc m)
  then obtain cnts where c: "for_each (count_atom g al) [0..<m] cnts0 = Inr cnts"
    "length cnts = length cnts0"
    "\<forall>k<length cnts0. cnts ! k = cnts0 ! k + int (length (cell_atoms g al m (int k)))" by blast
  have "length cnts = nat (g_nx g * g_ny g * g_nz g)" using c(2) assms by simp
  from count_atom_ok[OF this, of al m] obtain cnts' where d:
    "count_atom g al cnts m = Inr cnts'" "length cnts' = length cnts"
    "\<forall>k<length cnts. cnts' ! k = cnts ! k + (if int k \<in> set (atom_cells g (al ! m)) then 1 else 0)"
    by blast
  have "for_each (count_atom g al) [0..<Suc m] cnts0 = Inr cnts'"
    using c(1) d(1) by (simp add: for_each_append)
  moreover have "\<forall>k<length cnts0. cnts' ! k = cnts0 ! k + int (length (cell_atoms g al (Suc m) (int k)))"
    using c(2,3) d(3) by (simp add: cell_atoms_Suc)
  ultimately show ?case using c(2) d(2) by simp
qed

lemma count_pass_ok:
  assumes "n = nat (g_nx g * g_ny g * g_nz g)"
  shows "\<exists>cnts. count_pass g al (replicate n 0) = Inr cnts \<and> length cnts = n \<and>
     (\<forall>k<n. cnts ! k = int (length (cell_atoms g al (length al) (int k))))"
proof -
  have "length (replicate n (0::int)) = nat (g_nx g * g_ny g * g_nz g)" using assms by simp
  from count_pass_prefix[OF this, of al "length al"] obtain cnts where c:
    "for_each (count_atom g al) [0..<length al] (replicate n 0) = Inr cnts"
    "length cnts = length (replicate n (0::int))"
    "\<forall>k<length (replicate n (0::int)).
        cnts ! k = replicate n 0 ! k + int (length (cell_atoms g al (length al) (int k)))"
    by blast
  have "\<forall>k<n. cnts ! k = int (length (cell_atoms g al (length al) (int k)))"
    using c(3) by simp
  then show ?thesis using c(1,2) unfolding count_pass_def by simp
qed

subsection \<open>The filling pass\<close>

lemma fill_cell_nat:
  assumes "k < length cnts" "length ids = length cnts" "cnts ! k = int c" "c < length (ids ! k)"
  shows "fill_cell i (cnts, ids) (int k) = Inr (cnts[k := int c + 1], ids[k := (ids ! k)[c := i]])"
  using assms by (simp add: fill_cell_def)

lemma fill_cells:
  assumes "distinct uis" "length ids = length cnts"
    "\<forall>u\<in>set uis. 0 \<le> u \<and> u < int (length cnts) \<and> 0 \<le> cnts ! nat u \<and>
        cnts ! nat u < int (length (ids ! nat u))"
  shows "\<exists>cnts' ids'. for_each (fill_cell i) uis (cnts, ids) = Inr (cnts', ids') \<and>
     length cnts' = length cnts \<and> length ids' = length ids \<and>
     (\<forall>k<length cnts. if int k \<in> set uis
        then cnts' ! k = cnts ! k + 1 \<and> ids' ! k = (ids ! k)[nat (cnts ! k) := i]
        else cnts' ! k = cnts ! k \<and> ids' ! k = ids ! k)"
  using assms
proof (induction uis arbitrary: cnts ids)
  case Nil
  then show ?case by simp
next
  case (Cons u uis)
  have u: "0 \<le> u \<and> u < int (length cnts) \<and> 0 \<le> cnts ! nat u \<and> cnts ! nat u < int (length (ids ! nat u))"
    using Cons.prems(3) by simp
  define j where "j = nat u"
  define c where "c = nat (cnts ! j)"
  have j: "u = int j" "j < length cnts" "cnts ! j = int c" "c < length (ids ! j)"
    using u unfolding j_def c_def by linarith+
  let ?cnts = "cnts[j := int c + 1]"
  let ?ids = "ids[j := (ids ! j)[c := i]]"
  have step: "fill_cell i (cnts, ids) u = Inr (?cnts, ?ids)"
    unfolding j(1) by (rule fill_cell_nat[OF j(2) Cons.prems(2) j(3) j(4)])
  have nin: "int j \<notin> set uis" using Cons.prems(1) j(1) by simp
  have p1: "distinct uis" using Cons.prems(1) by simp
  have p2: "length ?ids = length ?cnts" using Cons.prems(2) by simp
  have p3: "\<forall>v\<in>set uis. 0 \<le> v \<and> v < int (length ?cnts) \<and> 0 \<le> ?cnts ! nat v \<and>
        ?cnts ! nat v < int (length (?ids ! nat v))"
  proof
    fix v assume v: "v \<in> set uis"
    then have a: "0 \<le> v \<and> v < int (length cnts) \<and> 0 \<le> cnts ! nat v \<and> cnts ! nat v < int (length (ids ! nat v))"
      using Cons.prems(3) by simp
    have "nat v \<noteq> j" using v nin a by auto
    then show "0 \<le> v \<and> v < int (length ?cnts) \<and> 0 \<le> ?cnts ! nat v \<and>
        ?cnts ! nat v < int (length (?ids ! nat v))" using a by simp
  qed
  from Cons.IH[OF p1 p2 p3] obtain cnts' ids' where r:
    "for_each (fill_cell i) uis (?cnts, ?ids) = Inr (cnts', ids')"
    "length cnts' = length ?cnts" "length ids' = length ?ids"
    "\<forall>k<length ?cnts. if int k \<in> set uis
        then cnts' ! k = ?cnts ! k + 1 \<and> ids' ! k = (?ids ! k)[nat (?cnts ! k) := i]
        else cnts' ! k = ?cnts ! k \<and> ids' ! k = ?ids ! k" by blast
  have "for_each (fill_cell i) (u # uis) (cnts, ids) = Inr (cnts', ids')"
    using step r(1) by simp
  moreover have "\<forall>k<length cnts. if int k \<in> set (u # uis)
        then cnts' ! k = cnts ! k + 1 \<and> ids' ! k = (ids ! k)[nat (cnts ! k) := i]
        else cnts' ! k = cnts ! k \<and> ids' ! k = ids ! k"
  proof (intro allI impI)
    fix k assume k: "k < length cnts"
    show "if int k \<in> set (u # uis)
        then cnts' ! k = cnts ! k + 1 \<and> ids' ! k = (ids ! k)[nat (cnts ! k) := i]
        else cnts' ! k = cnts ! k \<and> ids' ! k = ids ! k"
    proof (cases "k = j")
      case True
      then show ?thesis using r(4) k nin j Cons.prems(2) by simp
    next
      case False
      then have "int k \<noteq> u" using j(1) by simp
      then show ?thesis using r(4) k False by simp
    qed
  qed
  ultimately show ?case using r(2,3) by simp
qed

lemma take_Suc_update:
  "c < length xs \<Longrightarrow> take (Suc c) (xs[c := v]) = take c xs @ [v]"
  by (simp add: take_Suc_conv_app_nth)

lemma fill_atom_step:
  assumes m: "m < length al" and inv: "fill_inv g al m (cnts, ids)"
  shows "\<exists>st'. fill_atom g al (cnts, ids) m = Inr st' \<and> fill_inv g al (Suc m) st'"
proof -
  let ?n = "nat (g_nx g * g_ny g * g_nz g)"
  let ?uis = "atom_cells g (al ! m)"
  have len: "length cnts = ?n" "length ids = ?n"
    and cell: "\<And>k. k < ?n \<Longrightarrow> cnts ! k = int (length (cell_atoms g al m (int k))) \<and>
        length (ids ! k) = length (cell_atoms g al (length al) (int k)) \<and>
        take (length (cell_atoms g al m (int k))) (ids ! k) = map int (cell_atoms g al m (int k))"
    using inv unfolding fill_inv_def by simp_all
  have room: "length (cell_atoms g al m u) < length (cell_atoms g al (length al) u)"
    if "u \<in> set ?uis" for u
  proof -
    have "length (cell_atoms g al (Suc m) u) \<le> length (cell_atoms g al (length al) u)"
      using m by (intro cell_atoms_length_mono) simp
    then show ?thesis using that by (simp add: cell_atoms_Suc)
  qed
  have pre: "\<forall>u\<in>set ?uis. 0 \<le> u \<and> u < int (length cnts) \<and> 0 \<le> cnts ! nat u \<and>
        cnts ! nat u < int (length (ids ! nat u))"
  proof
    fix u assume u: "u \<in> set ?uis"
    then have b: "0 \<le> u \<and> u < g_nx g * g_ny g * g_nz g" by (rule atom_cells_bounds)
    then have k: "nat u < ?n" "int (nat u) = u" by linarith+
    from cell[OF k(1)] room[OF u] k(2) b len
    show "0 \<le> u \<and> u < int (length cnts) \<and> 0 \<le> cnts ! nat u \<and>
        cnts ! nat u < int (length (ids ! nat u))" by simp
  qed
  have l2: "length ids = length cnts" using len by simp
  from fill_cells[OF atom_cells_distinct l2 pre, of "int m"] obtain cnts' ids' where r:
    "for_each (fill_cell (int m)) ?uis (cnts, ids) = Inr (cnts', ids')"
    "length cnts' = length cnts" "length ids' = length ids"
    "\<forall>k<length cnts. if int k \<in> set ?uis
        then cnts' ! k = cnts ! k + 1 \<and> ids' ! k = (ids ! k)[nat (cnts ! k) := int m]
        else cnts' ! k = cnts ! k \<and> ids' ! k = ids ! k" by blast
  have "fill_inv g al (Suc m) (cnts', ids')"
    unfolding fill_inv_def
  proof (intro conjI allI impI)
    show "length (fst (cnts', ids')) = ?n" using r(2) len by simp
    show "length (snd (cnts', ids')) = ?n" using r(3) len by simp
  next
    fix k assume k: "k < ?n"
    note c = cell[OF k]
    have rk: "if int k \<in> set ?uis
        then cnts' ! k = cnts ! k + 1 \<and> ids' ! k = (ids ! k)[nat (cnts ! k) := int m]
        else cnts' ! k = cnts ! k \<and> ids' ! k = ids ! k" using r(4) k len by simp
    show "fst (cnts', ids') ! k = int (length (cell_atoms g al (Suc m) (int k)))"
      using rk c by (simp add: cell_atoms_Suc)
    show "length (snd (cnts', ids') ! k) = length (cell_atoms g al (length al) (int k))"
      using rk c by (simp split: if_splits)
    show "take (length (cell_atoms g al (Suc m) (int k))) (snd (cnts', ids') ! k) =
        map int (cell_atoms g al (Suc m) (int k))"
    proof (cases "int k \<in> set ?uis")
      case True
      have "length (cell_atoms g al m (int k)) < length (ids ! k)" using room[OF True] c by simp
      then show ?thesis using True rk c by (simp add: cell_atoms_Suc take_Suc_update)
    next
      case False
      then show ?thesis using rk c by (simp add: cell_atoms_Suc)
    qed
  qed
  then show ?thesis using r(1) unfolding fill_atom_def by blast
qed

lemma fill_pass_prefix:
  assumes "fill_inv g al 0 st0"
  shows "m \<le> length al \<Longrightarrow> \<exists>st. for_each (fill_atom g al) [0..<m] st0 = Inr st \<and> fill_inv g al m st"
proof (induction m)
  case 0
  then show ?case using assms by simp
next
  case (Suc m)
  then obtain st where s: "for_each (fill_atom g al) [0..<m] st0 = Inr st" "fill_inv g al m st"
    by auto
  obtain cnts ids where st: "st = (cnts, ids)" by (cases st) auto
  have "m < length al" using Suc.prems by simp
  from fill_atom_step[OF this s(2)[unfolded st]] obtain st' where
    t: "fill_atom g al (cnts, ids) m = Inr st'" "fill_inv g al (Suc m) st'" by blast
  have "for_each (fill_atom g al) [0..<Suc m] st0 = Inr st'"
    using s(1) t(1) st by (simp add: for_each_append)
  then show ?case using t(2) by blast
qed

lemma fill_inv_final:
  assumes "fill_inv g al (length al) (cnts, ids)" "k < nat (g_nx g * g_ny g * g_nz g)"
  shows "ids ! k = map int (cell_atoms g al (length al) (int k))"
    and "cnts ! k = int (length (ids ! k))"
  using assms unfolding fill_inv_def by (auto dest!: spec[of _ k])

lemma alloc_cell_length [simp]: "length (alloc_cell (int t)) = t"
  by (simp add: alloc_cell_def)

lemma fill_pass_ok:
  assumes "length cnts = nat (g_nx g * g_ny g * g_nz g)"
    "\<forall>k<length cnts. cnts ! k = int (length (cell_atoms g al (length al) (int k)))"
  shows "\<exists>st. fill_pass g al (map (\<lambda>c. 0) cnts, map alloc_cell cnts) = Inr st \<and>
     fill_inv g al (length al) st"
proof -
  have "fill_inv g al 0 (map (\<lambda>c. 0) cnts, map alloc_cell cnts)"
    unfolding fill_inv_def using assms by simp
  from fill_pass_prefix[OF this, of "length al"] show ?thesis
    unfolding fill_pass_def by simp
qed

subsection \<open>The quadrature sphere\<close>

lemma sphere_count_sum:
  "sphere_count dtheta nphimax idxs acc =
     acc + sum_list (map (\<lambda>itheta. VRINT (sin (dtheta * real_of_int itheta) * real_of_int nphimax)) idxs)"
  by (induction idxs arbitrary: acc) (simp_all add: Let_def)

lemma sphere_ring_writes:
  "0 \<le> k \<Longrightarrow> nat k + length idxs \<le> length points \<Longrightarrow>
   sphere_ring dphi st ct idxs (points, k) =
     Inr (take (nat k) points
            @ map (\<lambda>iphi. (cos (dphi * real_of_int iphi) * st, sin (dphi * real_of_int iphi) * st, ct)) idxs
            @ drop (nat k + length idxs) points,
          k + int (length idxs))"
proof (induction idxs arbitrary: points k)
  case Nil
  then show ?case by simp
next
  case (Cons iphi idxs)
  let ?v = "(cos (dphi * real_of_int iphi) * st, sin (dphi * real_of_int iphi) * st, ct)"
  let ?p = "points[nat k := ?v]"
  have k: "nat k < length points" "int (nat k) = k" using Cons.prems by simp_all
  have "0 \<le> k \<and> k < int (length points)" using Cons.prems by simp
  then have set: "array_set points k ?v = Inr ?p" by (simp add: array_set_def)
  have a: "0 \<le> k + 1" "nat (k + 1) + length idxs \<le> length ?p" using Cons.prems by simp_all
  have n1: "nat (k + 1) = Suc (nat k)" using Cons.prems by simp
  have "sphere_ring dphi st ct (iphi # idxs) (points, k) = sphere_ring dphi st ct idxs (?p, k + 1)"
    using set by (simp add: Let_def)
  also have "\<dots> = Inr (take (nat (k + 1)) ?p
            @ map (\<lambda>iphi. (cos (dphi * real_of_int iphi) * st, sin (dphi * real_of_int iphi) * st, ct)) idxs
            @ drop (nat (k + 1) + length idxs) ?p, k + 1 + int (length idxs))"
    by (rule Cons.IH[OF a])
  also have "take (nat (k + 1)) ?p = take (nat k) points @ [?v]"
    unfolding n1 using k(1) by (rule take_Suc_update)
  also have "drop (nat (k + 1) + length idxs) ?p = drop (nat k + length (iphi # idxs)) points"
    unfolding n1 by simp
  finally show ?case by simp
qed

lemma sphere_assign_writes:
  "0 \<le> k \<Longrightarrow>
   nat k + length (concat (map (ring_points dtheta nphimax) idxs)) \<le> length points \<Longrightarrow>
   sphere_assign dtheta nphimax idxs (points, k) =
     Inr (take (nat k) points @ concat (map (ring_points dtheta nphimax) idxs)
            @ drop (nat k + length (concat (map (ring_points dtheta nphimax) idxs))) points,
          k + int (length (concat (map (ring_points dtheta nphimax) idxs))))"
proof (induction idxs arbitrary: points k)
  case Nil
  then show ?case by simp
next
  case (Cons itheta idxs)
  let ?nphi = "VRINT (sin (dtheta * real_of_int itheta) * real_of_int nphimax)"
  let ?r = "ring_points dtheta nphimax itheta"
  let ?rest = "concat (map (ring_points dtheta nphimax) idxs)"
  let ?p = "take (nat k) points @ ?r @ drop (nat k + length ?r) points"
  have lr: "length ?r = length [0..?nphi - 1]" unfolding ring_points_def by (simp add: Let_def)
  have fit: "nat k + length [0..?nphi - 1] \<le> length points" using Cons.prems lr by simp
  have ring_step: "sphere_ring (2 * pi / real_of_int ?nphi) (sin (dtheta * real_of_int itheta))
        (cos (dtheta * real_of_int itheta)) [0..?nphi - 1] (points, k) = Inr (?p, k + int (length ?r))"
    using sphere_ring_writes[OF Cons.prems(1) fit] unfolding ring_points_def by (simp add: Let_def)
  have lp: "length ?p = length points" using Cons.prems lr by simp
  have a: "0 \<le> k + int (length ?r)" using Cons.prems by simp
  have b: "nat (k + int (length ?r)) + length ?rest \<le> length ?p"
    using Cons.prems lp by (simp add: nat_add_distrib)
  have nk: "nat (k + int (length ?r)) = nat k + length ?r" using Cons.prems by (simp add: nat_add_distrib)
  have step: "sphere_assign dtheta nphimax (itheta # idxs) (points, k) =
      sphere_assign dtheta nphimax idxs (?p, k + int (length ?r))"
  proof (cases "?nphi = 0")
    case True
    then have "?r = []" unfolding ring_points_def by (simp add: Let_def)
    then show ?thesis using True by (simp add: Let_def)
  next
    case False
    then show ?thesis using ring_step by (simp add: Let_def)
  qed
  have t: "take (nat k + length ?r) ?p = take (nat k) points @ ?r"
    using Cons.prems by simp
  have d: "drop (nat k + length ?r + length ?rest) ?p = drop (nat k + length ?r + length ?rest) points"
    using Cons.prems by (simp add: add.commute add.left_commute)
  show ?case
    unfolding step Cons.IH[OF a b] nk t d by (simp add: add.assoc)
qed

lemma round_nonneg: "0 \<le> (x::real) \<Longrightarrow> 0 \<le> round x"
  using round_mono[of 0 x] by simp

lemma ring_sin_nonneg:
  assumes "0 \<le> i" "i \<le> nt - 1"
  shows "0 \<le> sin (pi / real_of_int nt * real_of_int i)"
proof -
  have nt: "0 < real_of_int nt" using assms by simp
  have "real_of_int i \<le> real_of_int nt" using assms by simp
  then have "pi / real_of_int nt * real_of_int i \<le> pi / real_of_int nt * real_of_int nt"
    using nt by (intro mult_left_mono) simp_all
  then have "pi / real_of_int nt * real_of_int i \<le> pi" using nt by simp
  moreover have "0 \<le> pi / real_of_int nt * real_of_int i" using nt assms by simp
  ultimately show ?thesis by (rule sin_ge_zero[rotated])
qed


lemma ring_points_spec:
  "ring_points (pi / real_of_int nt) (2 * nt) i = spec_ring nt i"
  by (simp add: ring_points_def spec_ring_def spec_nphi_def VRINT_def Let_def mult.commute mult.left_commute)

lemma ring_points_spec_fun: "ring_points (pi / real_of_int nt) (2 * nt) = spec_ring nt"
  by (rule ext) (rule ring_points_spec)

lemma spec_nphi_nonneg:
  assumes "0 \<le> i" "i \<le> nt - 1"
  shows "0 \<le> spec_nphi nt i"
proof -
  have nt: "0 \<le> real_of_int nt" using assms by simp
  have "0 \<le> sin (pi / real_of_int nt * real_of_int i)" using assms by (rule ring_sin_nonneg)
  then have "0 \<le> sin (real_of_int i * pi / real_of_int nt) * 2 * real_of_int nt"
    using nt by (simp add: mult.commute)
  then show ?thesis unfolding spec_nphi_def by (rule round_nonneg)
qed

lemma spec_ring_length: "length (spec_ring nt i) = nat (spec_nphi nt i)"
  by (simp add: spec_ring_def Let_def)

lemma spec_sphere_length:
  "int (length (spec_sphere n)) = sum_list (map (spec_nphi (spec_ntheta n)) [0..spec_ntheta n - 1])"
proof -
  have "\<And>idxs. \<forall>i\<in>set idxs. 0 \<le> spec_nphi nt i \<Longrightarrow>
      int (length (concat (map (spec_ring nt) idxs))) = sum_list (map (spec_nphi nt) idxs)" for nt
  proof -
    fix idxs show "\<forall>i\<in>set idxs. 0 \<le> spec_nphi nt i \<Longrightarrow>
      int (length (concat (map (spec_ring nt) idxs))) = sum_list (map (spec_nphi nt) idxs)"
      by (induction idxs) (simp_all add: spec_ring_length)
  qed
  moreover have "\<forall>i\<in>set [0..spec_ntheta n - 1]. 0 \<le> spec_nphi (spec_ntheta n) i"
    using spec_nphi_nonneg by simp
  ultimately show ?thesis unfolding spec_sphere_def by blast
qed

lemma sphere_count_spec:
  "sphere_count (pi / real_of_int nt) (2 * nt) idxs acc = acc + sum_list (map (spec_nphi nt) idxs)"
proof -
  have "(\<lambda>itheta. VRINT (sin (pi / real_of_int nt * real_of_int itheta) * real_of_int (2 * nt))) = spec_nphi nt"
    by (rule ext) (simp add: spec_nphi_def VRINT_def mult_ac)
  then show ?thesis unfolding sphere_count_sum by simp
qed

lemma Vacc_sphere_spec:
  "Vacc_sphere n = Inr (spec_sphere n, int (length (spec_sphere n)))"
proof -
  let ?nt = "spec_ntheta n"
  let ?idxs = "[0..?nt - 1]"
  have nt: "VRINT (sqrt (pi * (real_of_int n / 4))) = ?nt" by (simp add: VRINT_def spec_ntheta_def)
  have pts: "concat (map (ring_points (pi / real_of_int ?nt) (2 * ?nt)) ?idxs) = spec_sphere n"
    unfolding spec_sphere_def ring_points_spec_fun by (rule refl)
  have cnt: "sphere_count (pi / real_of_int ?nt) (2 * ?nt) ?idxs 0 = int (length (spec_sphere n))"
    unfolding sphere_count_spec spec_sphere_length by simp
  have "sphere_assign (pi / real_of_int ?nt) (2 * ?nt) ?idxs (replicate (length (spec_sphere n)) (0, 0, 0), 0)
      = Inr (spec_sphere n, int (length (spec_sphere n)))"
    using sphere_assign_writes[of 0 "pi / real_of_int ?nt" "2 * ?nt" ?idxs
        "replicate (length (spec_sphere n)) (0, 0, 0)"]
    unfolding pts by simp
  then show ?thesis unfolding Vacc_sphere_def Let_def nt cnt by simp
qed

lemma spec_sphere_unit:
  assumes "p \<in> set (spec_sphere n)"
  shows "dist2 p (0, 0, 0) = 1"
proof -
  have u: "VSQR (cos a * sin b) + VSQR (sin a * sin b) + VSQR (cos b) = 1" for a b :: real
  proof -
    have "VSQR (cos a * sin b) + VSQR (sin a * sin b) + VSQR (cos b)
        = (cos a * cos a + sin a * sin a) * (sin b * sin b) + cos b * cos b"
      unfolding VSQR_def by algebra
    also have "\<dots> = sin b * sin b + cos b * cos b" by (simp only: sin_cos_squared_add3 mult_1)
    also have "\<dots> = 1" using sin_cos_squared_add3[of b] by (simp only: add.commute)
    finally show ?thesis .
  qed
  from assms obtain i k where "p = (let theta = real_of_int i * pi / real_of_int (spec_ntheta n);
          nphi = spec_nphi (spec_ntheta n) i
      in (let phi = real_of_int k * (2 * pi / real_of_int nphi)
                  in (cos phi * sin theta, sin phi * sin theta, cos theta)))"
    unfolding spec_sphere_def spec_ring_def by (auto simp: Let_def)
  then show ?thesis by (simp add: dist2_def Let_def u)
qed

subsection \<open>The constructed structure\<close>

lemma ctor2_grid_dims [simp]:
  "g_nx (ctor2_grid vlarge al max_rad nx0 ny0 nz0) = nx0"
  "g_ny (ctor2_grid vlarge al max_rad nx0 ny0 nz0) = ny0"
  "g_nz (ctor2_grid vlarge al max_rad nx0 ny0 nz0) = nz0"
  "g_max_radius (ctor2_grid vlarge al max_rad nx0 ny0 nz0) = max_rad"
  by (simp_all add: ctor2_grid_def Let_def)

lemma Vacc_ctor2_result:
  assumes "3 \<le> nx0" "3 \<le> ny0" "3 \<le> nz0"
  shows "\<exists>cnts cnts' ids.
     count_pass (ctor2_grid vlarge al max_rad nx0 ny0 nz0) al (replicate (nat (nx0 * ny0 * nz0)) 0) = Inr cnts \<and>
     length cnts = nat (nx0 * ny0 * nz0) \<and>
     (\<forall>k<nat (nx0 * ny0 * nz0). cnts ! k =
        int (length (cell_atoms (ctor2_grid vlarge al max_rad nx0 ny0 nz0) al (length al) (int k)))) \<and>
     fill_inv (ctor2_grid vlarge al max_rad nx0 ny0 nz0) al (length al) (cnts', ids) \<and>
     Vacc_ctor2 vlarge al max_rad nx0 ny0 nz0 nsphere0 =
       Inr \<lparr> alist = al, nx = nx0, ny = ny0, nz = nz0, ngrid = nx0 * ny0 * nz0,
             max_radius = max_rad,
             hx = g_hx (ctor2_grid vlarge al max_rad nx0 ny0 nz0),
             hy = g_hy (ctor2_grid vlarge al max_rad nx0 ny0 nz0),
             hzed = g_hzed (ctor2_grid vlarge al max_rad nx0 ny0 nz0),
             grid_lower_corner = g_lower (ctor2_grid vlarge al max_rad nx0 ny0 nz0),
             natoms = cnts', atomIDs = ids,
             atomFlags = replicate (nat (nx0 * ny0 * nz0)) 0,
             sphere = spec_sphere nsphere0, nsphere = int (length (spec_sphere nsphere0)),
             area = replicate (length al) 0 \<rparr>"
proof -
  let ?g = "ctor2_grid vlarge al max_rad nx0 ny0 nz0"
  let ?n = "nat (nx0 * ny0 * nz0)"
  have n: "?n = nat (g_nx ?g * g_ny ?g * g_nz ?g)" by simp
  from count_pass_ok[OF n, of al] obtain cnts where c:
    "count_pass ?g al (replicate ?n 0) = Inr cnts" "length cnts = ?n"
    "\<forall>k<?n. cnts ! k = int (length (cell_atoms ?g al (length al) (int k)))" by blast
  have l: "length cnts = nat (g_nx ?g * g_ny ?g * g_nz ?g)" using c(2) by simp
  have "\<forall>k<length cnts. cnts ! k = int (length (cell_atoms ?g al (length al) (int k)))"
    using c(2,3) by simp
  from fill_pass_ok[OF l this] obtain st where
    f: "fill_pass ?g al (map (\<lambda>c. 0) cnts, map alloc_cell cnts) = Inr st"
       "fill_inv ?g al (length al) st" by blast
  obtain cnts' ids where st: "st = (cnts', ids)" by (cases st) auto
  have "Vacc_ctor2 vlarge al max_rad nx0 ny0 nz0 nsphere0 =
       Inr \<lparr> alist = al, nx = nx0, ny = ny0, nz = nz0, ngrid = nx0 * ny0 * nz0,
             max_radius = max_rad,
             hx = g_hx ?g, hy = g_hy ?g, hzed = g_hzed ?g, grid_lower_corner = g_lower ?g,
             natoms = cnts', atomIDs = ids,
             atomFlags = replicate ?n 0,
             sphere = spec_sphere nsphere0, nsphere = int (length (spec_sphere nsphere0)),
             area = replicate (length al) 0 \<rparr>"
    using assms c(1) f(1) unfolding Vacc_ctor2_def Let_def st
    by (simp add: Vacc_sphere_spec)
  then show ?thesis using c f(2) st by blast
qed

lemma Vacc_ctor2_total:
  assumes "3 \<le> nx0" "3 \<le> ny0" "3 \<le> nz0"
  shows "\<exists>thee. Vacc_ctor2 vlarge al max_rad nx0 ny0 nz0 nsphere0 = Inr thee"
  using Vacc_ctor2_result[OF assms] by blast

lemma Vacc_ctor2_dims:
  assumes "Vacc_ctor2 vlarge al max_rad nx0 ny0 nz0 nsphere0 = Inr thee"
  shows "3 \<le> nx0" "3 \<le> ny0" "3 \<le> nz0"
  using assms unfolding Vacc_ctor2_def Let_def by (simp_all split: if_splits)

lemma Vacc_ctor2_fields:
  assumes "Vacc_ctor2 vlarge al max_rad nx0 ny0 nz0 nsphere0 = Inr thee"
  shows "alist thee = al" "nx thee = nx0" "ny thee = ny0" "nz thee = nz0"
    "ngrid thee = nx0 * ny0 * nz0" "max_radius thee = max_rad"
    "Vacc_grid thee = ctor2_grid vlarge al max_rad nx0 ny0 nz0"
    "atomFlags thee = replicate (nat (nx0 * ny0 * nz0)) 0"
    "sphere thee = spec_sphere nsphere0" "nsphere thee = int (length (spec_sphere nsphere0))"
    "area thee = replicate (length al) 0"
proof -
  note d = Vacc_ctor2_dims[OF assms]
  from Vacc_ctor2_result[OF d, of vlarge al max_rad nsphere0] assms
  obtain cnts' ids where t: "thee = \<lparr> alist = al, nx = nx0, ny = ny0, nz = nz0, ngrid = nx0 * ny0 * nz0,
             max_radius = max_rad,
             hx = g_hx (ctor2_grid vlarge al max_rad nx0 ny0 nz0),
             hy = g_hy (ctor2_grid vlarge al max_rad nx0 ny0 nz0),
             hzed = g_hzed (ctor2_grid vlarge al max_rad nx0 ny0 nz0),
             grid_lower_corner = g_lower (ctor2_grid vlarge al max_rad nx0 ny0 nz0),
             natoms = cnts', atomIDs = ids,
             atomFlags = replicate (nat (nx0 * ny0 * nz0)) 0,
             sphere = spec_sphere nsphere0, nsphere = int (length (spec_sphere nsphere0)),
             area = replicate (length al) 0 \<rparr>" by auto
  show "alist thee = al" "nx thee = nx0" "ny thee = ny0" "nz thee = nz0"
    "ngrid thee = nx0 * ny0 * nz0" "max_radius thee = max_rad"
    "atomFlags thee = replicate (nat (nx0 * ny0 * nz0)) 0"
    "sphere thee = spec_sphere nsphere0" "nsphere thee = int (length (spec_sphere nsphere0))"
    "area thee = replicate (length al) 0"
    unfolding t by simp_all
  show "Vacc_grid thee = ctor2_grid vlarge al max_rad nx0 ny0 nz0"
    unfolding t Vacc_grid_def by (simp add: ctor2_grid_def Let_def)
qed

lemma Vacc_ctor2_buckets:
  assumes "Vacc_ctor2 vlarge al max_rad nx0 ny0 nz0 nsphere0 = Inr thee"
  shows "length (natoms thee) = nat (nx0 * ny0 * nz0)"
    "length (atomIDs thee) = nat (nx0 * ny0 * nz0)"
    "\<And>k. k < nat (nx0 * ny0 * nz0) \<Longrightarrow>
       atomIDs thee ! k = map int (cell_atoms (Vacc_grid thee) al (length al) (int k))"
    "\<And>k. k < nat (nx0 * ny0 * nz0) \<Longrightarrow> natoms thee ! k = int (length (atomIDs thee ! k))"
    "\<exists>cnts. count_pass (Vacc_grid thee) al (replicate (nat (nx0 * ny0 * nz0)) 0) = Inr cnts \<and>
       (\<forall>k<nat (nx0 * ny0 * nz0). cnts ! k = int (length (atomIDs thee ! k)))"
proof -
  note d = Vacc_ctor2_dims[OF assms]
  let ?g = "ctor2_grid vlarge al max_rad nx0 ny0 nz0"
  have g: "Vacc_grid thee = ?g" using Vacc_ctor2_fields(7)[OF assms] .
  from Vacc_ctor2_result[OF d, of vlarge al max_rad nsphere0] assms
  obtain cnts cnts' ids where
    c: "count_pass ?g al (replicate (nat (nx0 * ny0 * nz0)) 0) = Inr cnts"
       "\<forall>k<nat (nx0 * ny0 * nz0). cnts ! k = int (length (cell_atoms ?g al (length al) (int k)))"
    and inv: "fill_inv ?g al (length al) (cnts', ids)"
    and t: "natoms thee = cnts'" "atomIDs thee = ids" by auto
  have n: "nat (g_nx ?g * g_ny ?g * g_nz ?g) = nat (nx0 * ny0 * nz0)" by simp
  show "length (natoms thee) = nat (nx0 * ny0 * nz0)" "length (atomIDs thee) = nat (nx0 * ny0 * nz0)"
    using inv unfolding fill_inv_def t n by simp_all
  show b: "atomIDs thee ! k = map int (cell_atoms (Vacc_grid thee) al (length al) (int k))"
    if "k < nat (nx0 * ny0 * nz0)" for k
    unfolding g t using fill_inv_final(1)[OF inv] that by simp
  show "natoms thee ! k = int (length (atomIDs thee ! k))" if "k < nat (nx0 * ny0 * nz0)" for k
    unfolding t using fill_inv_final(2)[OF inv] that by simp
  have "\<forall>k<nat (nx0 * ny0 * nz0). cnts ! k = int (length (atomIDs thee ! k))"
    using c(2) b unfolding g by simp
  then show "\<exists>cnts. count_pass (Vacc_grid thee) al (replicate (nat (nx0 * ny0 * nz0)) 0) = Inr cnts \<and>
       (\<forall>k<nat (nx0 * ny0 * nz0). cnts ! k = int (length (atomIDs thee ! k)))"
    unfolding g using c(1) by blast
qed

lemma cell_atoms_set: "set (cell_atoms g al m u) = {i. i < m \<and> u \<in> set (atom_cells g (al ! i))}"
  by (auto simp: cell_atoms_def)

lemma Vacc_ctor2_wf:
  assumes "Vacc_ctor2 vlarge al max_rad nx0 ny0 nz0 nsphere0 = Inr thee"
  shows "Vacc_wf thee"
  unfolding Vacc_wf_def
  using Vacc_ctor2_buckets(1-4)[OF assms] Vacc_ctor2_fields[OF assms]
  by (auto simp: cell_atoms_set)

lemma pi_ge_three: "3 \<le> pi"
proof -
  have "sin (pi / 6) \<le> pi / 6" by (rule sin_x_le_x) simp
  then show ?thesis by (simp add: sin_30)
qed

lemma sin_cos_3pi2 [simp]: "cos (pi * 3 / 2) = 0" "sin (pi * 3 / 2) = - 1"
  using cos_3over2_pi sin_3over2_pi by (simp_all add: mult.commute)

lemma spec_ntheta_4: "spec_ntheta 4 = 2"
proof -
  have "sqrt pi * sqrt pi = pi" by simp
  have a: "3 / 2 < sqrt pi"
  proof -
    have "sqrt ((3/2)\<^sup>2) < sqrt pi" using pi_ge_three by (intro real_sqrt_less_mono, simp add: power2_eq_square)
    then show ?thesis by simp
  qed
  have b: "sqrt pi < 5 / 2"
  proof -
    have "sqrt pi < sqrt ((5/2)\<^sup>2)" using pi_less_4 by (intro real_sqrt_less_mono, simp add: power2_eq_square)
    then show ?thesis by simp
  qed
  have "round (sqrt pi) = 2" using a b by (intro round_unique) simp_all
  then show ?thesis by (simp add: spec_ntheta_def)
qed

lemma spec_sphere_4: "spec_sphere 4 = [(1, 0, 0), (0, 1, 0), (- 1, 0, 0), (0, - 1, 0)]"
proof -
  have n0: "spec_nphi 2 0 = 0" by (simp add: spec_nphi_def)
  have n1: "spec_nphi 2 1 = 4" by (simp add: spec_nphi_def)
  have r0: "spec_ring 2 0 = []" by (simp add: spec_ring_def n0)
  have u: "[0..(3::int)] = [0, 1, 2, 3]" by (simp add: upto_rec1)
  have r1: "spec_ring 2 1 = [(1, 0, 0), (0, 1, 0), (- 1, 0, 0), (0, - 1, 0)]"
    by (simp add: spec_ring_def n1 u Let_def)
  have v: "[0..(1::int)] = [0, 1]" by (simp add: upto_rec1)
  show ?thesis by (simp add: spec_sphere_def spec_ntheta_4 v r0 r1)
qed

lemma on_grid_ui:
  assumes "\<not> off_grid thee center"
  shows "0 \<le> cell_ui thee center" "cell_ui thee center < nx thee * ny thee * nz thee"
proof -
  have b: "0 \<le> centeri thee center" "centeri thee center \<le> nx thee - 1"
    "0 \<le> centerj thee center" "centerj thee center \<le> ny thee - 1"
    "0 \<le> centerk thee center" "centerk thee center \<le> nz thee - 1"
    using assms unfolding off_grid_def by linarith+
  show "0 \<le> cell_ui thee center" "cell_ui thee center < nx thee * ny thee * nz thee"
    unfolding cell_ui_def using cell_index_bounds[OF b] by simp_all
qed

lemma int_of_double_between: "\<lfloor>x\<rfloor> \<le> int_of_double x" "int_of_double x \<le> \<lceil>x\<rceil>"
  unfolding int_of_double_def by (simp_all add: floor_le_ceiling)

lemma axis_cover:
  fixes a p l h r :: real
  assumes h: "0 < h" and d: "VSQR (a - p) \<le> VSQR r" and r: "0 \<le> r"
  shows "\<lfloor>(a - l - r) / h\<rfloor> \<le> int_of_double ((p - l) / h)"
    and "int_of_double ((p - l) / h) \<le> \<lceil>(a - l + r) / h\<rceil>"
proof -
  have "(a - p)\<^sup>2 \<le> r\<^sup>2" using d by (simp add: VSQR_def power2_eq_square)
  then have "\<bar>a - p\<bar> \<le> r" using r by (simp add: abs_le_square_iff[symmetric])
  then have b: "a - l - r \<le> p - l" "p - l \<le> a - l + r" by linarith+
  have "(a - l - r) / h \<le> (p - l) / h" using b(1) h by (simp add: divide_right_mono)
  then have "\<lfloor>(a - l - r) / h\<rfloor> \<le> \<lfloor>(p - l) / h\<rfloor>" by (rule floor_mono)
  then show "\<lfloor>(a - l - r) / h\<rfloor> \<le> int_of_double ((p - l) / h)"
    using int_of_double_between(1)[of "(p - l) / h"] by linarith
  have "(p - l) / h \<le> (a - l + r) / h" using b(2) h by (simp add: divide_right_mono)
  then have "\<lceil>(p - l) / h\<rceil> \<le> \<lceil>(a - l + r) / h\<rceil>" by (rule ceiling_mono)
  then show "int_of_double ((p - l) / h) \<le> \<lceil>(a - l + r) / h\<rceil>"
    using int_of_double_between(2)[of "(p - l) / h"] by linarith
qed

lemma dist2_axes:
  assumes "dist2 a p \<le> VSQR r"
  shows "VSQR (fst a - fst p) \<le> VSQR r" "VSQR (fst (snd a) - fst (snd p)) \<le> VSQR r"
    "VSQR (snd (snd a) - snd (snd p)) \<le> VSQR r"
proof -
  obtain a0 a1 a2 where a: "a = (a0, a1, a2)" by (cases a) auto
  obtain p0 p1 p2 where p: "p = (p0, p1, p2)" by (cases p) auto
  have s: "0 \<le> VSQR x" for x by (simp add: VSQR_def)
  have "VSQR (a0 - p0) + VSQR (a1 - p1) + VSQR (a2 - p2) \<le> VSQR r"
    using assms unfolding a p dist2_def by simp
  then show "VSQR (fst a - fst p) \<le> VSQR r" "VSQR (fst (snd a) - fst (snd p)) \<le> VSQR r"
    "VSQR (snd (snd a) - snd (snd p)) \<le> VSQR r"
    unfolding a p using s[of "a0 - p0"] s[of "a1 - p1"] s[of "a2 - p2"] by simp_all
qed

text \<open>A point on the grid within the inflated sphere of an atom lies in a cell of that atom.\<close>

lemma point_in_atom_cells:
  assumes on: "\<not> off_grid thee p"
    and h: "0 < hx thee" "0 < hy thee" "0 < hzed thee"
    and r: "0 \<le> radius a + max_radius thee"
    and d: "dist2 (position a) p \<le> VSQR (radius a + max_radius thee)"
  shows "cell_ui thee p \<in> set (atom_cells (Vacc_grid thee) a)"
proof -
  let ?g = "Vacc_grid thee"
  note ax = dist2_axes[OF d]
  have g: "g_hx ?g = hx thee" "g_hy ?g = hy thee" "g_hzed ?g = hzed thee"
    "g_lower ?g = grid_lower_corner thee" "g_nx ?g = nx thee" "g_ny ?g = ny thee"
    "g_nz ?g = nz thee" "g_max_radius ?g = max_radius thee"
    by (simp_all add: Vacc_grid_def)
  have b: "0 \<le> centeri thee p" "centeri thee p \<le> nx thee - 1"
    "0 \<le> centerj thee p" "centerj thee p \<le> ny thee - 1"
    "0 \<le> centerk thee p" "centerk thee p \<le> nz thee - 1"
    using on unfolding off_grid_def by linarith+
  have i: "i_min ?g a \<le> centeri thee p" "centeri thee p \<le> i_max ?g a"
    using axis_cover[OF h(1) ax(1) r, of "fst (grid_lower_corner thee)"] b(1,2)
    unfolding i_min_def i_max_def g centeri_def VMIN2_def VMAX2_def by simp_all
  have j: "j_min ?g a \<le> centerj thee p" "centerj thee p \<le> j_max ?g a"
    using axis_cover[OF h(2) ax(2) r, of "fst (snd (grid_lower_corner thee))"] b(3,4)
    unfolding j_min_def j_max_def g centerj_def VMIN2_def VMAX2_def by simp_all
  have k: "k_min ?g a \<le> centerk thee p" "centerk thee p \<le> k_max ?g a"
    using axis_cover[OF h(3) ax(3) r, of "snd (snd (grid_lower_corner thee))"] b(5,6)
    unfolding k_min_def k_max_def g centerk_def VMIN2_def VMAX2_def by simp_all
  show ?thesis
    unfolding atom_cells_iff cell_ui_def g using i j k by blast
qed

lemma atom_cells_cell_iff:
  assumes "0 \<le> jj" "jj < g_ny g" "0 \<le> kk" "kk < g_nz g"
  shows "g_nz g * g_ny g * ii + g_nz g * jj + kk \<in> set (atom_cells g a) \<longleftrightarrow>
     i_min g a \<le> ii \<and> ii \<le> i_max g a \<and> j_min g a \<le> jj \<and> jj \<le> j_max g a \<and>
     k_min g a \<le> kk \<and> kk \<le> k_max g a"
proof
  assume "g_nz g * g_ny g * ii + g_nz g * jj + kk \<in> set (atom_cells g a)"
  then obtain ii' jj' kk' where h: "i_min g a \<le> ii'" "ii' \<le> i_max g a" "j_min g a \<le> jj'"
    "jj' \<le> j_max g a" "k_min g a \<le> kk'" "kk' \<le> k_max g a"
    "g_nz g * g_ny g * ii + g_nz g * jj + kk = g_nz g * g_ny g * ii' + g_nz g * jj' + kk'"
    unfolding atom_cells_iff by blast
  have b: "0 \<le> jj'" "jj' < g_ny g" "0 \<le> kk'" "kk' < g_nz g"
    using h j_range[of g a] k_range[of g a] by linarith+
  have "ii = ii' \<and> jj = jj' \<and> kk = kk'"
    by (rule cell_index_inj[OF assms b h(7)])
  then show "i_min g a \<le> ii \<and> ii \<le> i_max g a \<and> j_min g a \<le> jj \<and> jj \<le> j_max g a \<and>
     k_min g a \<le> kk \<and> kk \<le> k_max g a" using h by simp
next
  assume "i_min g a \<le> ii \<and> ii \<le> i_max g a \<and> j_min g a \<le> jj \<and> jj \<le> j_max g a \<and>
     k_min g a \<le> kk \<and> kk \<le> k_max g a"
  then show "g_nz g * g_ny g * ii + g_nz g * jj + kk \<in> set (atom_cells g a)"
    unfolding atom_cells_iff by blast
qed

lemma cell_atoms_sorted: "sorted_wrt (<) (map int (cell_atoms g al m u))"
proof -
  have "sorted_wrt (<) (cell_atoms g al m u)"
    unfolding cell_atoms_def by (rule sorted_wrt_filter) (simp add: sorted_wrt_upt)
  then show ?thesis by (simp add: sorted_wrt_map)
qed

lemma bucket_member:
  assumes c: "Vacc_ctor2 vlarge al max_rad nx0 ny0 nz0 nsphere0 = Inr thee"
    and u: "0 \<le> u" "u < nx0 * ny0 * nz0" and i: "i < length al"
  shows "int i \<in> set (atomIDs thee ! nat u) \<longleftrightarrow> u \<in> set (atom_cells (Vacc_grid thee) (al ! i))"
proof -
  have "nat u < nat (nx0 * ny0 * nz0)" using u by simp
  from Vacc_ctor2_buckets(3)[OF c this] u(1) i show ?thesis
    by (auto simp: cell_atoms_set)
qed

lemma lone_vacc_ctor: "Vacc_ctor2 (10 ^ 9) [lone_atom] 20 3 3 3 4 = Inr lone_vacc"
proof -
  obtain thee where "Vacc_ctor2 (10 ^ 9) [lone_atom] 20 3 3 3 4 = Inr thee"
    using Vacc_ctor2_total[of 3 3 3 "10 ^ 9" "[lone_atom]" 20 4] by auto
  then show ?thesis unfolding lone_vacc_def by simp
qed

lemma lone_grid:
  "Vacc_grid lone_vacc =
     \<lparr> g_hx = 71, g_hy = 71, g_hzed = 71, g_lower = (- 71, - 71, - 71),
       g_nx = 3, g_ny = 3, g_nz = 3, g_max_radius = 20 \<rparr>"
  unfolding Vacc_ctor2_fields(7)[OF lone_vacc_ctor]
  by (simp add: ctor2_grid_def find_extents_def extents_step_def lone_atom_def Let_def)

lemma lone_ranges:
  "i_min (Vacc_grid lone_vacc) lone_atom = 0" "i_max (Vacc_grid lone_vacc) lone_atom = 2"
  "j_min (Vacc_grid lone_vacc) lone_atom = 0" "j_max (Vacc_grid lone_vacc) lone_atom = 2"
  "k_min (Vacc_grid lone_vacc) lone_atom = 0" "k_max (Vacc_grid lone_vacc) lone_atom = 2"
  unfolding lone_grid
  by (simp_all add: i_min_def i_max_def j_min_def j_max_def k_min_def k_max_def lone_atom_def
      VMIN2_def VMAX2_def)

subsection \<open>The loops of the discrete predicates\<close>

lemma Valist_getAtom_nat [simp]:
  "0 \<le> a \<Longrightarrow> a < int (length al) \<Longrightarrow> Valist_getAtom al a = Inr (al ! nat a)"
  by (simp add: Valist_getAtom_def)

lemma array_get_int [simp]:
  "0 \<le> i \<Longrightarrow> i < int (length xs) \<Longrightarrow> array_get xs i = Inr (xs ! nat i)"
  by (simp add: array_get_def)

lemma upto_bucket_set:
  "(\<lambda>k. ids ! nat k) ` set [0..int (length ids) - 1] = set ids"
proof -
  have "set [0..int (length ids) - 1] = int ` {..<length ids}"
  proof (rule set_eqI)
    fix k show "k \<in> set [0..int (length ids) - 1] \<longleftrightarrow> k \<in> int ` {..<length ids}"
    proof
      assume "k \<in> set [0..int (length ids) - 1]"
      then have "k = int (nat k) \<and> nat k < length ids" by auto
      then show "k \<in> int ` {..<length ids}" by blast
    next
      assume "k \<in> int ` {..<length ids}"
      then show "k \<in> set [0..int (length ids) - 1]" by auto
    qed
  qed
  then show ?thesis by (simp add: image_image set_conv_nth lessThan_def) blast
qed

lemma ivdwAccExclus_loop_char:
  assumes "0 \<le> ui" "ui < int (length (atomIDs thee))"
    "\<forall>a\<in>set (atomIDs thee ! nat ui). 0 \<le> a \<and> a < int (length (alist thee))"
  shows "\<forall>k\<in>set idxs. 0 \<le> k \<and> k < int (length (atomIDs thee ! nat ui)) \<Longrightarrow>
    ivdwAccExclus_loop thee center rad atomID ui idxs =
      Inr (if \<exists>k\<in>set idxs. ivdw_overlap thee center rad atomID (atomIDs thee ! nat ui ! nat k)
           then 0 else 1)"
proof (induction idxs)
  case Nil
  then show ?case by simp
next
  case (Cons k idxs)
  let ?ids = "atomIDs thee ! nat ui"
  have k: "0 \<le> k" "k < int (length ?ids)" using Cons.prems by simp_all
  then have "?ids ! nat k \<in> set ?ids" by simp
  then have a: "0 \<le> ?ids ! nat k" "?ids ! nat k < int (length (alist thee))"
    using assms(3) by blast+
  have ih: "ivdwAccExclus_loop thee center rad atomID ui idxs =
      Inr (if \<exists>k\<in>set idxs. ivdw_overlap thee center rad atomID (?ids ! nat k) then 0 else 1)"
    using Cons by simp
  show ?case
    using assms(1,2) k a ih by (auto simp: ivdw_overlap_def Let_def)
qed

lemma vdwAcc_loop_char:
  assumes "0 \<le> ui" "ui < int (length (atomIDs thee))"
    "\<forall>a\<in>set (atomIDs thee ! nat ui). 0 \<le> a \<and> a < int (length (alist thee))"
  shows "\<forall>k\<in>set idxs. 0 \<le> k \<and> k < int (length (atomIDs thee ! nat ui)) \<Longrightarrow>
    vdwAcc_loop thee center ui idxs =
      Inr (if \<exists>k\<in>set idxs. vdw_overlap thee center (atomIDs thee ! nat ui ! nat k)
           then 0 else 1)"
proof (induction idxs)
  case Nil
  then show ?case by simp
next
  case (Cons k idxs)
  let ?ids = "atomIDs thee ! nat ui"
  have k: "0 \<le> k" "k < int (length ?ids)" using Cons.prems by simp_all
  then have "?ids ! nat k \<in> set ?ids" by simp
  then have a: "0 \<le> ?ids ! nat k" "?ids ! nat k < int (length (alist thee))"
    using assms(3) by blast+
  have ih: "vdwAcc_loop thee center ui idxs =
      Inr (if \<exists>k\<in>set idxs. vdw_overlap thee center (?ids ! nat k) then 0 else 1)"
    using Cons by simp
  show ?case
    using assms(1,2) k a ih by (auto simp: vdw_overlap_def Let_def)
qed

text \<open>What a well-formed structure gives at the cell of a point on the grid.\<close>

lemma wf_cell:
  assumes "Vacc_wf thee" "\<not> off_grid thee center"
  shows "0 \<le> cell_ui thee center" "cell_ui thee center < int (length (atomIDs thee))"
    "cell_ui thee center < int (length (natoms thee))"
    "natoms thee ! nat (cell_ui thee center) = int (length (atomIDs thee ! nat (cell_ui thee center)))"
    "\<forall>a\<in>set (atomIDs thee ! nat (cell_ui thee center)). 0 \<le> a \<and> a < int (length (alist thee))"
proof -
  note u = on_grid_ui[OF assms(2)]
  show "0 \<le> cell_ui thee center" by (rule u(1))
  show l: "cell_ui thee center < int (length (atomIDs thee))"
    "cell_ui thee center < int (length (natoms thee))"
    using u assms(1) unfolding Vacc_wf_def by simp_all
  then have "nat (cell_ui thee center) < length (atomIDs thee)" using u(1) by simp
  then show "natoms thee ! nat (cell_ui thee center) = int (length (atomIDs thee ! nat (cell_ui thee center)))"
    "\<forall>a\<in>set (atomIDs thee ! nat (cell_ui thee center)). 0 \<le> a \<and> a < int (length (alist thee))"
    using assms(1) unfolding Vacc_wf_def by blast+
qed

lemma ivdwAccExclus_char:
  assumes "Vacc_wf thee"
  shows "ivdwAccExclus thee center rad atomID =
     (if rad > max_radius thee then Inl AssertionFailure
      else if off_grid thee center then Inr 1
      else Inr (if \<exists>a\<in>set (atomIDs thee ! nat (cell_ui thee center)).
                     ivdw_overlap thee center rad atomID a then 0 else 1))"
proof (cases "rad > max_radius thee \<or> off_grid thee center")
  case True
  then show ?thesis by (auto simp: ivdwAccExclus_def)
next
  case False
  then have on: "\<not> off_grid thee center" and r: "\<not> rad > max_radius thee" by simp_all
  note c = wf_cell[OF assms on]
  let ?ui = "cell_ui thee center"
  let ?ids = "atomIDs thee ! nat ?ui"
  have "\<forall>k\<in>set [0..int (length ?ids) - 1]. 0 \<le> k \<and> k < int (length ?ids)" by simp
  from ivdwAccExclus_loop_char[OF c(1,2,5) this, of center rad atomID]
  have "ivdwAccExclus_loop thee center rad atomID ?ui [0..int (length ?ids) - 1] =
      Inr (if \<exists>a\<in>(\<lambda>k. ?ids ! nat k) ` set [0..int (length ?ids) - 1].
               ivdw_overlap thee center rad atomID a then 0 else 1)"
    by (simp only: bex_simps(7))
  then have "ivdwAccExclus_loop thee center rad atomID ?ui [0..int (length ?ids) - 1] =
      Inr (if \<exists>a\<in>set ?ids. ivdw_overlap thee center rad atomID a then 0 else 1)"
    unfolding upto_bucket_set .
  then show ?thesis using on r c(1,3,4) by (simp add: ivdwAccExclus_def Let_def)
qed

lemma Vacc_vdwAcc_char:
  assumes "Vacc_wf thee"
  shows "Vacc_vdwAcc thee center =
     (if off_grid thee center then Inr 1
      else Inr (if \<exists>a\<in>set (atomIDs thee ! nat (cell_ui thee center)).
                     vdw_overlap thee center a then 0 else 1))"
proof (cases "off_grid thee center")
  case True
  then show ?thesis by (simp add: Vacc_vdwAcc_def)
next
  case False
  note c = wf_cell[OF assms False]
  let ?ui = "cell_ui thee center"
  let ?ids = "atomIDs thee ! nat ?ui"
  have "\<forall>k\<in>set [0..int (length ?ids) - 1]. 0 \<le> k \<and> k < int (length ?ids)" by simp
  from vdwAcc_loop_char[OF c(1,2,5) this, of center]
  have "vdwAcc_loop thee center ?ui [0..int (length ?ids) - 1] =
      Inr (if \<exists>a\<in>(\<lambda>k. ?ids ! nat k) ` set [0..int (length ?ids) - 1].
               vdw_overlap thee center a then 0 else 1)"
    by (simp only: bex_simps(7))
  then have "vdwAcc_loop thee center ?ui [0..int (length ?ids) - 1] =
      Inr (if \<exists>a\<in>set ?ids. vdw_overlap thee center a then 0 else 1)"
    unfolding upto_bucket_set .
  then show ?thesis using False c(1,3,4) by (simp add: Vacc_vdwAcc_def Let_def)
qed

lemma Vacc_ivdwAcc_char:
  assumes "Vacc_wf thee"
  shows "Vacc_ivdwAcc thee center rad =
     (if rad > max_radius thee then Inl AssertionFailure
      else if off_grid thee center then Inr 1
      else Inr (if \<exists>a\<in>set (atomIDs thee ! nat (cell_ui thee center)).
                     ivdw_overlap thee center rad (- 1) a then 0 else 1))"
  unfolding Vacc_ivdwAcc_def ivdwAccExclus_char[OF assms] by simp

lemma molAcc_loop_fast: "molAcc_loop thee center rad idxs = fastMolAcc_loop thee center rad idxs"
  by (induction idxs) (simp_all cong: if_cong)

lemma Vacc_ivdwAcc_cases:
  assumes "Vacc_wf thee" "rad \<le> max_radius thee"
  shows "Vacc_ivdwAcc thee center rad = Inr 0 \<or> Vacc_ivdwAcc thee center rad = Inr 1"
  unfolding Vacc_ivdwAcc_char[OF assms(1)] using assms(2) by simp

lemma fastMolAcc_loop_char:
  assumes "Vacc_wf thee" "rad \<le> max_radius thee"
  shows "\<forall>k\<in>set idxs. 0 \<le> k \<and> k < int (length (sphere thee)) \<Longrightarrow>
    fastMolAcc_loop thee center rad idxs =
      Inr (if \<exists>k\<in>set idxs. Vacc_ivdwAcc thee (sphere_vec rad (sphere thee ! nat k) center) rad = Inr 1
           then 1 else 0)"
proof (induction idxs)
  case Nil
  then show ?case by simp
next
  case (Cons k idxs)
  have k: "0 \<le> k" "k < int (length (sphere thee))" using Cons.prems by simp_all
  have ih: "fastMolAcc_loop thee center rad idxs =
      Inr (if \<exists>k\<in>set idxs. Vacc_ivdwAcc thee (sphere_vec rad (sphere thee ! nat k) center) rad = Inr 1
           then 1 else 0)" using Cons by simp
  from Vacc_ivdwAcc_cases[OF assms, of "sphere_vec rad (sphere thee ! nat k) center"]
  show ?case using k ih by auto
qed

lemma Vacc_fastMolAcc_char:
  assumes "Vacc_wf thee" "rad \<le> max_radius thee"
  shows "Vacc_fastMolAcc thee center rad =
      Inr (if \<exists>s\<in>set (sphere thee). Vacc_ivdwAcc thee (sphere_vec rad s center) rad = Inr 1
           then 1 else 0)"
proof -
  have n: "nsphere thee = int (length (sphere thee))" using assms(1) unfolding Vacc_wf_def by simp
  have "\<forall>k\<in>set [0..int (length (sphere thee)) - 1]. 0 \<le> k \<and> k < int (length (sphere thee))" by simp
  from fastMolAcc_loop_char[OF assms this, of center]
  have "fastMolAcc_loop thee center rad [0..int (length (sphere thee)) - 1] =
      Inr (if \<exists>s\<in>(\<lambda>k. sphere thee ! nat k) ` set [0..int (length (sphere thee)) - 1].
               Vacc_ivdwAcc thee (sphere_vec rad s center) rad = Inr 1 then 1 else 0)"
    by (simp only: bex_simps(7))
  then show ?thesis unfolding upto_bucket_set Vacc_fastMolAcc_def n .
qed

subsection \<open>The structure of the single atom\<close>

lemma lone_wf: "Vacc_wf lone_vacc"
  by (rule Vacc_ctor2_wf[OF lone_vacc_ctor])

lemma lone_fields:
  "alist lone_vacc = [lone_atom]" "nx lone_vacc = 3" "ny lone_vacc = 3" "nz lone_vacc = 3"
  "max_radius lone_vacc = 20" "hx lone_vacc = 71" "hy lone_vacc = 71" "hzed lone_vacc = 71"
  "grid_lower_corner lone_vacc = (- 71, - 71, - 71)"
  "sphere lone_vacc = [(1, 0, 0), (0, 1, 0), (- 1, 0, 0), (0, - 1, 0)]"
  "nsphere lone_vacc = 4"
proof -
  note f = Vacc_ctor2_fields[OF lone_vacc_ctor]
  show "alist lone_vacc = [lone_atom]" "nx lone_vacc = 3" "ny lone_vacc = 3" "nz lone_vacc = 3"
    "max_radius lone_vacc = 20" using f by simp_all
  show "sphere lone_vacc = [(1, 0, 0), (0, 1, 0), (- 1, 0, 0), (0, - 1, 0)]"
    "nsphere lone_vacc = 4" using f(9,10) by (simp_all add: spec_sphere_4)
  have "g_hx (Vacc_grid lone_vacc) = 71" "g_hy (Vacc_grid lone_vacc) = 71"
    "g_hzed (Vacc_grid lone_vacc) = 71" "g_lower (Vacc_grid lone_vacc) = (- 71, - 71, - 71)"
    unfolding lone_grid by simp_all
  then show "hx lone_vacc = 71" "hy lone_vacc = 71" "hzed lone_vacc = 71"
    "grid_lower_corner lone_vacc = (- 71, - 71, - 71)"
    by (simp_all add: Vacc_grid_def)
qed

lemma lone_bucket_13: "atomIDs lone_vacc ! 13 = [0]"
proof -
  have g: "g_ny (Vacc_grid lone_vacc) = 3" "g_nz (Vacc_grid lone_vacc) = 3"
    unfolding lone_grid by simp_all
  have "g_nz (Vacc_grid lone_vacc) * g_ny (Vacc_grid lone_vacc) * 1
      + g_nz (Vacc_grid lone_vacc) * 1 + 1 \<in> set (atom_cells (Vacc_grid lone_vacc) lone_atom)"
    by (subst atom_cells_cell_iff) (simp_all add: g lone_ranges)
  then have m: "13 \<in> set (atom_cells (Vacc_grid lone_vacc) lone_atom)" by (simp add: g)
  have "atomIDs lone_vacc ! 13 = map int (cell_atoms (Vacc_grid lone_vacc) [lone_atom] (length [lone_atom]) (int 13))"
    by (rule Vacc_ctor2_buckets(3)[OF lone_vacc_ctor]) simp
  then show ?thesis using m by (simp add: cell_atoms_def)
qed

lemma lone_cell_x:
  assumes "0 \<le> x" "x < 71"
  shows "\<not> off_grid lone_vacc (x, 0, 0)" "cell_ui lone_vacc (x, 0, 0) = 13"
proof -
  have "\<lfloor>(x + 71) / 71\<rfloor> = 1" using assms by (intro floor_unique) simp_all
  then have i: "centeri lone_vacc (x, 0, 0) = 1"
    using assms by (simp add: centeri_def lone_fields int_of_double_def)
  have j: "centerj lone_vacc (x, 0, 0) = 1" "centerk lone_vacc (x, 0, 0) = 1"
    by (simp_all add: centerj_def centerk_def lone_fields int_of_double_def)
  show "\<not> off_grid lone_vacc (x, 0, 0)" "cell_ui lone_vacc (x, 0, 0) = 13"
    by (simp_all add: off_grid_def cell_ui_def i j lone_fields)
qed

lemma lone_ivdwAcc:
  assumes "0 \<le> x" "x < 71" "rad \<le> 20"
  shows "Vacc_ivdwAcc lone_vacc (x, 0, 0) rad = Inr (if x * x < (30 + rad) * (30 + rad) then 0 else 1)"
  unfolding Vacc_ivdwAcc_char[OF lone_wf] using assms lone_cell_x[OF assms(1,2)]
  by (simp add: lone_fields lone_bucket_13 ivdw_overlap_def lone_atom_def dist2_def VSQR_def)

lemma lone_vdwAcc:
  assumes "0 \<le> x" "x < 71"
  shows "Vacc_vdwAcc lone_vacc (x, 0, 0) = Inr (if x * x < 900 then 0 else 1)"
  unfolding Vacc_vdwAcc_char[OF lone_wf] using lone_cell_x[OF assms(1,2)]
  by (simp add: lone_fields lone_bucket_13 vdw_overlap_def lone_atom_def dist2_def VSQR_def)

subsection \<open>Directions present in a non-empty quadrature sphere\<close>

lemma int_of_double_mono: "x \<le> y \<Longrightarrow> int_of_double x \<le> int_of_double y"
proof -
  assume xy: "x \<le> y"
  show ?thesis
  proof (cases "0 \<le> x")
    case True
    then show ?thesis using xy by (simp add: int_of_double_def floor_mono)
  next
    case False
    show ?thesis
    proof (cases "0 \<le> y")
      case True
      have "\<lceil>x\<rceil> \<le> 0" using False by (simp add: ceiling_le_iff)
      moreover have "0 \<le> \<lfloor>y\<rfloor>" using True by simp
      moreover have "int_of_double x = \<lceil>x\<rceil>" "int_of_double y = \<lfloor>y\<rfloor>"
        using False True by (simp_all add: int_of_double_def)
      ultimately show ?thesis by linarith
    next
      case y: False
      then show ?thesis using False xy by (simp add: int_of_double_def ceiling_mono)
    qed
  qed
qed

lemma spec_nphi_0 [simp]: "spec_nphi nt 0 = 0"
  by (simp add: spec_nphi_def)

lemma spec_sphere_nonempty_ntheta:
  assumes "spec_sphere n \<noteq> []"
  shows "2 \<le> spec_ntheta n"
proof (rule ccontr)
  assume "\<not> 2 \<le> spec_ntheta n"
  then have "set [0..spec_ntheta n - 1] \<subseteq> {0}" by auto
  then have "\<forall>i\<in>set [0..spec_ntheta n - 1]. spec_ring (spec_ntheta n) i = []"
    by (auto simp: spec_ring_def Let_def)
  then have "spec_sphere n = []" unfolding spec_sphere_def by simp
  then show False using assms by simp
qed

lemma spec_nphi_mirror:
  assumes "nt \<noteq> 0"
  shows "spec_nphi nt (nt - i) = spec_nphi nt i"
proof -
  have "real_of_int (nt - i) * pi / real_of_int nt = pi - real_of_int i * pi / real_of_int nt"
    using assms by (simp add: field_simps)
  then show ?thesis unfolding spec_nphi_def by simp
qed

lemma middle_ring:
  assumes nt: "2 \<le> nt"
  defines "theta \<equiv> real_of_int (nt div 2) * pi / real_of_int nt"
  shows "pi / 6 \<le> theta" "theta \<le> pi / 2" "1 / 2 \<le> sin theta" "0 \<le> cos theta"
    "2 \<le> spec_nphi nt (nt div 2)"
proof -
  have p: "0 < real_of_int nt" using nt by simp
  have "nt \<le> 3 * (nt div 2)" using nt by linarith
  then have "real_of_int nt \<le> 3 * real_of_int (nt div 2)" by linarith
  then have "1 / 3 \<le> real_of_int (nt div 2) / real_of_int nt" using p by (simp add: field_simps)
  then have "pi * (1 / 3) \<le> pi * (real_of_int (nt div 2) / real_of_int nt)"
    by (intro mult_left_mono) simp_all
  then have t3: "pi / 3 \<le> theta" unfolding theta_def by (simp add: field_simps)
  then show lo: "pi / 6 \<le> theta" using pi_gt_zero by linarith
  have "2 * (nt div 2) \<le> nt" by linarith
  then have "2 * real_of_int (nt div 2) \<le> real_of_int nt" by linarith
  then have "real_of_int (nt div 2) / real_of_int nt \<le> 1 / 2" using p by (simp add: field_simps)
  then have "pi * (real_of_int (nt div 2) / real_of_int nt) \<le> pi * (1 / 2)"
    by (intro mult_left_mono) simp_all
  then show hi: "theta \<le> pi / 2" unfolding theta_def by (simp add: field_simps)
  have "sin (pi / 6) \<le> sin theta"
    using lo hi by (intro sin_monotone_2pi_le) simp_all
  then show s: "1 / 2 \<le> sin theta" by (simp add: sin_30)
  show "0 \<le> cos theta" using lo hi pi_gt_zero by (intro cos_ge_zero) linarith+
  have "real_of_int nt * (1 / 2 * 2) \<le> real_of_int nt * (sin theta * 2)"
    using s p by (intro mult_left_mono) simp_all
  then have "real_of_int nt \<le> sin theta * 2 * real_of_int nt" by (simp add: mult_ac)
  then have "round (real_of_int nt) \<le> round (sin theta * 2 * real_of_int nt)" by (rule round_mono)
  then show "2 \<le> spec_nphi nt (nt div 2)" using nt unfolding spec_nphi_def theta_def by simp
qed

lemma spec_ring_nth:
  assumes "0 \<le> k" "k < spec_nphi nt i"
  shows "(cos (real_of_int k * (2 * pi / real_of_int (spec_nphi nt i)))
            * sin (real_of_int i * pi / real_of_int nt),
          sin (real_of_int k * (2 * pi / real_of_int (spec_nphi nt i)))
            * sin (real_of_int i * pi / real_of_int nt),
          cos (real_of_int i * pi / real_of_int nt)) \<in> set (spec_ring nt i)"
proof -
  have "k \<in> set [0..spec_nphi nt i - 1]" using assms by simp
  then show ?thesis unfolding spec_ring_def Let_def set_map
    by (intro image_eqI[where x = k]) simp_all
qed

lemma spec_ring_subset:
  assumes "0 \<le> i" "i < spec_ntheta n"
  shows "set (spec_ring (spec_ntheta n) i) \<subseteq> set (spec_sphere n)"
  using assms unfolding spec_sphere_def by auto

lemma sphere_directions:
  assumes "spec_sphere n \<noteq> []"
  shows "\<exists>s1\<in>set (spec_sphere n). \<exists>s2\<in>set (spec_sphere n). \<exists>s3\<in>set (spec_sphere n).
     0 \<le> fst s1 \<and> fst (snd s1) = 0 \<and> 0 \<le> snd (snd s1) \<and> fst s2 \<le> 0 \<and> snd (snd s3) \<le> 0"
proof -
  let ?nt = "spec_ntheta n"
  let ?m = "?nt div 2"
  let ?theta = "real_of_int ?m * pi / real_of_int ?nt"
  let ?nphi = "spec_nphi ?nt ?m"
  have nt: "2 \<le> ?nt" using assms by (rule spec_sphere_nonempty_ntheta)
  note mr = middle_ring[OF nt]
  have m: "0 \<le> ?m" "?m < ?nt" "0 \<le> ?nt - ?m" "?nt - ?m < ?nt" using nt by linarith+
  have sin0: "0 \<le> sin ?theta" using mr(3) by linarith
  \<comment> \<open>first point of the middle ring\<close>
  let ?s1 = "(sin ?theta, 0 :: real, cos ?theta)"
  have "0 < ?nphi" using mr(5) by simp
  then have "?s1 \<in> set (spec_ring ?nt ?m)"
    using spec_ring_nth[of 0 ?nt ?m] by simp
  then have s1: "?s1 \<in> set (spec_sphere n)" using spec_ring_subset[OF m(1,2)] by blast
  \<comment> \<open>the point half way round the middle ring\<close>
  let ?k = "?nphi div 2"
  let ?phi = "real_of_int ?k * (2 * pi / real_of_int ?nphi)"
  let ?s2 = "(cos ?phi * sin ?theta, sin ?phi * sin ?theta, cos ?theta)"
  have k: "0 \<le> ?k" "?k < ?nphi" using mr(5) by linarith+
  have s2: "?s2 \<in> set (spec_sphere n)"
    using spec_ring_nth[OF k] spec_ring_subset[OF m(1,2)] by blast
  have np: "0 < real_of_int ?nphi" using mr(5) by simp
  have "?nphi \<le> 4 * ?k" using mr(5) by linarith
  then have "real_of_int ?nphi \<le> 4 * real_of_int ?k" by linarith
  then have "1 / 4 \<le> real_of_int ?k / real_of_int ?nphi" using np by (simp add: field_simps)
  then have "2 * pi * (1 / 4) \<le> 2 * pi * (real_of_int ?k / real_of_int ?nphi)"
    by (intro mult_left_mono) simp_all
  then have lo: "pi / 2 \<le> ?phi" by (simp add: field_simps)
  have "2 * ?k \<le> ?nphi" by linarith
  then have "2 * real_of_int ?k \<le> real_of_int ?nphi" by linarith
  then have "real_of_int ?k / real_of_int ?nphi \<le> 1 / 2" using np by (simp add: field_simps)
  then have "2 * pi * (real_of_int ?k / real_of_int ?nphi) \<le> 2 * pi * (1 / 2)"
    by (intro mult_left_mono) simp_all
  then have hi: "?phi \<le> pi" by (simp add: field_simps)
  have "cos ?phi \<le> cos (pi / 2)" using lo hi by (intro cos_monotone_0_pi_le) simp_all
  then have "cos ?phi \<le> 0" by simp
  then have x2: "cos ?phi * sin ?theta \<le> 0" using sin0 by (simp add: mult_nonpos_nonneg)
  \<comment> \<open>first point of the mirrored ring\<close>
  let ?theta' = "real_of_int (?nt - ?m) * pi / real_of_int ?nt"
  have nz: "?nt \<noteq> 0" using nt by simp
  have th': "?theta' = pi - ?theta" using nt by (simp add: field_simps)
  have mir: "spec_nphi ?nt (?nt - ?m) = ?nphi" by (rule spec_nphi_mirror[OF nz])
  let ?s3 = "(sin ?theta', 0 :: real, cos ?theta')"
  have "0 < spec_nphi ?nt (?nt - ?m)" using mir mr(5) by simp
  then have "?s3 \<in> set (spec_ring ?nt (?nt - ?m))"
    using spec_ring_nth[of 0 ?nt "?nt - ?m"] by simp
  then have s3: "?s3 \<in> set (spec_sphere n)" using spec_ring_subset[OF m(3,4)] by blast
  have z3: "cos ?theta' \<le> 0" unfolding th' using mr(4) by simp
  show ?thesis
    using s1 s2 s3 sin0 mr(4) x2 z3
    by (intro bexI[of _ ?s1] bexI[of _ ?s2] bexI[of _ ?s3]) simp_all
qed

lemma sphere_vec_components:
  "fst (sphere_vec rad s c) = rad * fst s + fst c"
  "fst (snd (sphere_vec rad s c)) = rad * fst (snd s) + fst (snd c)"
  "snd (snd (sphere_vec rad s c)) = rad * snd (snd s) + snd (snd c)"
  by (simp_all add: sphere_vec_def split: prod.splits)

lemma center_mono:
  "0 < hx thee \<Longrightarrow> fst q \<le> fst p \<Longrightarrow> centeri thee q \<le> centeri thee p"
  "0 < hy thee \<Longrightarrow> fst (snd q) \<le> fst (snd p) \<Longrightarrow> centerj thee q \<le> centerj thee p"
  "0 < hzed thee \<Longrightarrow> snd (snd q) \<le> snd (snd p) \<Longrightarrow> centerk thee q \<le> centerk thee p"
  unfolding centeri_def centerj_def centerk_def
  by (intro int_of_double_mono divide_right_mono; simp)+

lemma off_grid_sample:
  assumes h: "0 < hx thee" "0 < hy thee" "0 < hzed thee" and r: "0 \<le> rad"
    and off: "off_grid thee p"
    and s1: "0 \<le> fst s1" "fst (snd s1) = 0" "0 \<le> snd (snd s1)"
    and s2: "fst s2 \<le> 0" and s3: "snd (snd s3) \<le> 0"
  shows "off_grid thee (sphere_vec rad s1 p) \<or> off_grid thee (sphere_vec rad s2 p) \<or>
     off_grid thee (sphere_vec rad s3 p)"
proof -
  have x1: "fst p \<le> fst (sphere_vec rad s1 p)"
    using r s1(1) by (simp add: sphere_vec_components)
  have y1: "fst (snd (sphere_vec rad s1 p)) = fst (snd p)"
    using s1(2) by (simp add: sphere_vec_components)
  have z1: "snd (snd p) \<le> snd (snd (sphere_vec rad s1 p))"
    using r s1(3) by (simp add: sphere_vec_components)
  have x2: "fst (sphere_vec rad s2 p) \<le> fst p"
    using r s2 by (simp add: sphere_vec_components mult_nonneg_nonpos)
  have z3: "snd (snd (sphere_vec rad s3 p)) \<le> snd (snd p)"
    using r s3 by (simp add: sphere_vec_components mult_nonneg_nonpos)
  have j1: "centerj thee (sphere_vec rad s1 p) = centerj thee p"
    unfolding centerj_def y1 ..
  consider "centeri thee p < 0" | "centeri thee p \<ge> nx thee"
    | "centerj thee p < 0 \<or> centerj thee p \<ge> ny thee"
    | "centerk thee p < 0" | "centerk thee p \<ge> nz thee"
    using off unfolding off_grid_def by blast
  then show ?thesis
  proof cases
    case 1
    then have "centeri thee (sphere_vec rad s2 p) < 0" using center_mono(1)[OF h(1) x2] by linarith
    then show ?thesis by (simp add: off_grid_def)
  next
    case 2
    then have "centeri thee (sphere_vec rad s1 p) \<ge> nx thee" using center_mono(1)[OF h(1) x1] by linarith
    then show ?thesis by (simp add: off_grid_def)
  next
    case 3
    then show ?thesis using j1 by (auto simp: off_grid_def)
  next
    case 4
    then have "centerk thee (sphere_vec rad s3 p) < 0" using center_mono(3)[OF h(3) z3] by linarith
    then show ?thesis by (simp add: off_grid_def)
  next
    case 5
    then have "centerk thee (sphere_vec rad s1 p) \<ge> nz thee" using center_mono(3)[OF h(3) z1] by linarith
    then show ?thesis by (simp add: off_grid_def)
  qed
qed

lemma fastMolAcc_off_grid:
  assumes c: "Vacc_ctor2 vlarge al max_rad nx0 ny0 nz0 nsphere0 = Inr thee"
    and h: "0 < hx thee" "0 < hy thee" "0 < hzed thee" and r: "0 \<le> rad" "rad \<le> max_rad"
    and ne: "sphere thee \<noteq> []" and off: "off_grid thee p"
  shows "Vacc_fastMolAcc thee p rad = Inr 1"
proof -
  note wf = Vacc_ctor2_wf[OF c]
  note f = Vacc_ctor2_fields[OF c]
  have m: "rad \<le> max_radius thee" using r(2) f(6) by simp
  have "spec_sphere nsphere0 \<noteq> []" using ne f(9) by simp
  from sphere_directions[OF this] obtain s1 s2 s3 where
    s: "s1 \<in> set (sphere thee)" "s2 \<in> set (sphere thee)" "s3 \<in> set (sphere thee)"
    and d: "0 \<le> fst s1" "fst (snd s1) = 0" "0 \<le> snd (snd s1)" "fst s2 \<le> 0" "snd (snd s3) \<le> 0"
    unfolding f(9) by blast
  from off_grid_sample[OF h r(1) off d] s
  obtain s where "s \<in> set (sphere thee)" "off_grid thee (sphere_vec rad s p)" by blast
  then have "\<exists>s\<in>set (sphere thee). Vacc_ivdwAcc thee (sphere_vec rad s p) rad = Inr 1"
    using m unfolding Vacc_ivdwAcc_char[OF wf] by auto
  then show ?thesis using ne unfolding Vacc_fastMolAcc_char[OF wf m] by simp
qed

lemma off_grid_vdwAcc: "off_grid thee p \<Longrightarrow> Vacc_vdwAcc thee p = Inr 1"
  by (simp add: Vacc_vdwAcc_def)

lemma off_grid_ivdwAcc:
  "off_grid thee p \<Longrightarrow> rad \<le> max_radius thee \<Longrightarrow> Vacc_ivdwAcc thee p rad = Inr 1"
  by (simp add: Vacc_ivdwAcc_def ivdwAccExclus_def)

lemma off_grid_molAcc:
  "off_grid thee p \<Longrightarrow> rad \<le> max_radius thee \<Longrightarrow> Vacc_molAcc thee p rad = Inr 1"
  by (simp add: Vacc_molAcc_def off_grid_ivdwAcc)

lemma lone_off_grid: "off_grid lone_vacc (200, 0, 0)"
proof -
  have "\<lfloor>(271::real) / 71\<rfloor> = 3" by (intro floor_unique) simp_all
  then have "centeri lone_vacc (200, 0, 0) = 3"
    by (simp add: centeri_def lone_fields int_of_double_def)
  then show ?thesis by (simp add: off_grid_def lone_fields)
qed

subsection \<open>Surface area of coincident atoms\<close>

lemma dist2_sphere_vec:
  assumes "dist2 s (0, 0, 0) = 1"
  shows "dist2 pos (sphere_vec r s pos) = VSQR r"
proof -
  obtain s0 s1 s2 where s: "s = (s0, s1, s2)" by (cases s) auto
  obtain p0 p1 p2 where p: "pos = (p0, p1, p2)" by (cases pos) auto
  have u: "s0 * s0 + s1 * s1 + s2 * s2 = 1" using assms unfolding s dist2_def VSQR_def by simp
  have "dist2 pos (sphere_vec r s pos) = r * r * (s0 * s0 + s1 * s1 + s2 * s2)"
    unfolding s p dist2_def VSQR_def sphere_vec_def by (simp add: algebra_simps)
  then show ?thesis unfolding u VSQR_def by simp
qed

lemma coincident_accessible:
  assumes wf: "Vacc_wf thee"
    and same: "\<forall>b\<in>set (alist thee). position b = pos \<and> radius b = R"
    and unit: "dist2 s (0, 0, 0) = 1" and m: "srad \<le> max_radius thee"
  shows "ivdwAccExclus thee (sphere_vec (R + srad) s pos) srad iatom = Inr 1"
proof (cases "off_grid thee (sphere_vec (R + srad) s pos)")
  case True
  then show ?thesis using m unfolding ivdwAccExclus_char[OF wf] by simp
next
  case False
  note c = wf_cell[OF wf False]
  have "\<not> ivdw_overlap thee (sphere_vec (R + srad) s pos) srad iatom a"
    if "a \<in> set (atomIDs thee ! nat (cell_ui thee (sphere_vec (R + srad) s pos)))" for a
  proof -
    have "0 \<le> a \<and> a < int (length (alist thee))" using c(5) that by blast
    then have "nat a < length (alist thee)" by linarith
    then have "alist thee ! nat a \<in> set (alist thee)" by (rule nth_mem)
    then have "position (alist thee ! nat a) = pos \<and> radius (alist thee ! nat a) = R"
      using same by blast
    then show ?thesis unfolding ivdw_overlap_def by (simp add: dist2_sphere_vec[OF unit])
  qed
  then show ?thesis using m False unfolding ivdwAccExclus_char[OF wf] by auto
qed

lemma atomSASA_loop_all:
  "\<forall>k\<in>set idxs. 0 \<le> k \<and> k < int (length (sphere thee)) \<and>
       ivdwAccExclus thee (sphere_vec (tRad + srad) (sphere thee ! nat k) tPos) srad iatom = Inr 1 \<Longrightarrow>
   atomSASA_loop thee srad iatom tPos tRad idxs a = Inr (a + real (length idxs))"
  by (induction idxs arbitrary: a) (simp_all add: add.assoc)

lemma atomSASA_coincident:
  assumes wf: "Vacc_wf thee"
    and same: "\<forall>b\<in>set (alist thee). position b = pos \<and> radius b = R"
    and unit: "\<forall>s\<in>set (sphere thee). dist2 s (0, 0, 0) = 1"
    and m: "srad \<le> max_radius thee" and ne: "sphere thee \<noteq> []"
    and i: "0 \<le> i" "i < int (length (alist thee))"
  shows "Vacc_atomSASA thee srad i = Inr (4 * pi * (R + srad) * (R + srad))"
proof -
  have n: "nsphere thee = int (length (sphere thee))" using wf unfolding Vacc_wf_def by simp
  have "nat i < length (alist thee)" using i by linarith
  then have "alist thee ! nat i \<in> set (alist thee)" by (rule nth_mem)
  then have a: "position (alist thee ! nat i) = pos" "radius (alist thee ! nat i) = R"
    using same by blast+
  have "\<forall>k\<in>set [0..nsphere thee - 1]. 0 \<le> k \<and> k < int (length (sphere thee)) \<and>
       ivdwAccExclus thee (sphere_vec (R + srad) (sphere thee ! nat k) pos) srad i = Inr 1"
  proof
    fix k assume "k \<in> set [0..nsphere thee - 1]"
    then have k: "0 \<le> k" "k < int (length (sphere thee))" using n by simp_all
    then have "nat k < length (sphere thee)" by linarith
    then have "sphere thee ! nat k \<in> set (sphere thee)" by (rule nth_mem)
    then have "dist2 (sphere thee ! nat k) (0, 0, 0) = 1" using unit by blast
    from coincident_accessible[OF wf same this m] k
    show "0 \<le> k \<and> k < int (length (sphere thee)) \<and>
       ivdwAccExclus thee (sphere_vec (R + srad) (sphere thee ! nat k) pos) srad i = Inr 1" by simp
  qed
  from atomSASA_loop_all[OF this, of 0]
  have l: "atomSASA_loop thee srad i pos R [0..nsphere thee - 1] 0 = Inr (real (length (sphere thee)))"
    by (simp add: n)
  have q: "real (length (sphere thee)) / real_of_int (nsphere thee) = 1" using ne n by simp
  have "Vacc_atomSASA thee srad i =
      Inr (real (length (sphere thee)) / real_of_int (nsphere thee) * 4 * pi * (R + srad) * (R + srad))"
    using i a l unfolding Vacc_atomSASA_def by (simp add: Let_def)
  then show ?thesis unfolding q by simp
qed

lemma ctor2_sphere_unit:
  assumes "Vacc_ctor2 vlarge al max_rad nx0 ny0 nz0 nsphere0 = Inr thee"
  shows "\<forall>s\<in>set (sphere thee). dist2 s (0, 0, 0) = 1"
  unfolding Vacc_ctor2_fields(9)[OF assms] using spec_sphere_unit by blast

lemma upto_0_1: "[0..(1::int)] = [0, 1]"
  by (simp add: upto_rec1)

lemma totalSASA_twin:
  assumes c: "Vacc_ctor2 vlarge [a, a] max_rad nx0 ny0 nz0 nsphere0 = Inr thee"
    and m: "srad \<le> max_rad" and ne: "spec_sphere nsphere0 \<noteq> []"
  shows "Vacc_totalSASA thee srad =
     Inr (2 * (4 * pi * (radius a + srad) * (radius a + srad)),
          thee\<lparr>area := [4 * pi * (radius a + srad) * (radius a + srad),
                         4 * pi * (radius a + srad) * (radius a + srad)]\<rparr>)"
proof -
  note f = Vacc_ctor2_fields[OF c]
  have same: "\<forall>b\<in>set (alist thee). position b = position a \<and> radius b = radius a"
    unfolding f(1) by simp
  have A: "Vacc_atomSASA thee srad i = Inr (4 * pi * (radius a + srad) * (radius a + srad))"
    if "0 \<le> i" "i < 2" for i
    using atomSASA_coincident[OF Vacc_ctor2_wf[OF c] same ctor2_sphere_unit[OF c], of srad i]
      m ne that f by simp
  show ?thesis
    unfolding Vacc_totalSASA_def f(1) f(11) Valist_getNumberAtoms_def
    by (simp add: upto_0_1 A array_set_def)
qed

lemma totalSASA_single:
  assumes c: "Vacc_ctor2 vlarge [a] max_rad nx0 ny0 nz0 nsphere0 = Inr thee"
    and m: "srad \<le> max_rad" and ne: "spec_sphere nsphere0 \<noteq> []"
  shows "Vacc_atomSASA thee srad 0 = Inr (4 * pi * (radius a + srad) * (radius a + srad))"
    "Vacc_totalSASA thee srad =
     Inr (4 * pi * (radius a + srad) * (radius a + srad),
          thee\<lparr>area := [4 * pi * (radius a + srad) * (radius a + srad)]\<rparr>)"
proof -
  note f = Vacc_ctor2_fields[OF c]
  have same: "\<forall>b\<in>set (alist thee). position b = position a \<and> radius b = radius a"
    unfolding f(1) by simp
  show A: "Vacc_atomSASA thee srad 0 = Inr (4 * pi * (radius a + srad) * (radius a + srad))"
    using atomSASA_coincident[OF Vacc_ctor2_wf[OF c] same ctor2_sphere_unit[OF c], of srad 0]
      m ne f by simp
  show "Vacc_totalSASA thee srad =
     Inr (4 * pi * (radius a + srad) * (radius a + srad),
          thee\<lparr>area := [4 * pi * (radius a + srad) * (radius a + srad)]\<rparr>)"
    unfolding Vacc_totalSASA_def f(1) f(11) Valist_getNumberAtoms_def
    by (simp add: A array_set_def)
qed

lemma twin_vacc_ctor: "Vacc_ctor2 (10 ^ 9) [lone_atom, lone_atom] 20 3 3 3 4 = Inr twin_vacc"
proof -
  obtain thee where "Vacc_ctor2 (10 ^ 9) [lone_atom, lone_atom] 20 3 3 3 4 = Inr thee"
    using Vacc_ctor2_total[of 3 3 3 "10 ^ 9" "[lone_atom, lone_atom]" 20 4] by auto
  then show ?thesis unfolding twin_vacc_def by simp
qed

lemma spec_sphere_4_nonempty: "spec_sphere 4 \<noteq> []"
  by (simp add: spec_sphere_4)

subsection \<open>The cubic of the smoothing window\<close>

lemma window_cubic:
  fixes w s :: real
  assumes "0 < w"
  shows "0.75 * VSQR s * (1 / (w * w)) - 0.25 * s * VSQR s * (1 / (w * w * w))
     = (s / w) * (s / w) * (3 - s / w) / 4"
  using assms by (simp add: VSQR_def field_simps)

lemma cubic_bounds:
  fixes t :: real
  assumes "0 \<le> t" "t \<le> 2"
  shows "0 \<le> t * t * (3 - t) / 4" "t * t * (3 - t) / 4 \<le> 1"
proof -
  have "0 \<le> t * t * (3 - t)" using assms by (intro mult_nonneg_nonneg) simp_all
  then show "0 \<le> t * t * (3 - t) / 4" by simp
  have "0 \<le> (2 - t) * (2 - t) * (t + 1)" using assms by (intro mult_nonneg_nonneg) simp_all
  moreover have "(2 - t) * (2 - t) * (t + 1) = 4 - t * t * (3 - t)" by algebra
  ultimately show "t * t * (3 - t) / 4 \<le> 1" by simp
qed

lemma cubic_pos:
  fixes t :: real
  assumes "0 < t" "t < 2"
  shows "0 < t * t * (3 - t) / 4"
proof -
  have "0 < t * t * (3 - t)" using assms by (intro mult_pos_pos) simp_all
  then show ?thesis by simp
qed

lemma cubic_mono:
  fixes t u :: real
  assumes "0 \<le> t" "t \<le> u" "u \<le> 2"
  shows "t * t * (3 - t) / 4 \<le> u * u * (3 - u) / 4"
proof -
  have "t * t \<le> 2 * t" using assms by (intro mult_right_mono) simp_all
  moreover have "u * u \<le> 2 * u" using assms by (intro mult_right_mono) simp_all
  moreover have "t * u \<le> 2 * t" using mult_left_mono[of u 2 t] assms by (simp add: mult.commute)
  moreover have "t * u \<le> 2 * u" using assms by (intro mult_right_mono) simp_all
  ultimately have "t * t + t * u + u * u \<le> 3 * t + 3 * u" by linarith
  then have "0 \<le> 3 * (t + u) - (t * t + t * u + u * u)" by (simp add: algebra_simps)
  then have "0 \<le> (u - t) * (3 * (t + u) - (t * t + t * u + u * u))"
    using assms by (intro mult_nonneg_nonneg) simp_all
  moreover have "(u - t) * (3 * (t + u) - (t * t + t * u + u * u))
      = u * u * (3 - u) - t * t * (3 - t)" by algebra
  ultimately show ?thesis by simp
qed

lemma splineAccAtom_big:
  assumes g: "Valist_getAtom (alist thee) atomID = Inr atom" and r: "1 < radius atom"
  shows "Vacc_splineAccAtom thee center win infrad atomID =
     Inr (window_value (radius atom + infrad) win (sqrt (dist2 (position atom) center)))"
  using g r unfolding Vacc_splineAccAtom_def window_value_def by (simp add: Let_def)

lemma splineAccAtom_small:
  assumes g: "Valist_getAtom (alist thee) atomID = Inr atom" and r: "radius atom \<le> 1"
  shows "Vacc_splineAccAtom thee center win infrad atomID = Inr 1"
  using g r unfolding Vacc_splineAccAtom_def by (simp add: Let_def)

lemma dist2_nonneg: "0 \<le> dist2 a c"
  by (cases a, cases c) (simp add: dist2_def VSQR_def)

lemma window_value_mid:
  assumes "0 < w" "0 < d" "a - w < d" "d < a + w"
  shows "window_value a w d = ((d - a + w) / w) * ((d - a + w) / w) * (3 - (d - a + w) / w) / 4"
    "window_value a w d = 0.75 * (d - a + w)\<^sup>2 / w\<^sup>2 - 0.25 * (d - a + w) ^ 3 / w ^ 3"
proof -
  have m: "\<not> d \<le> VMAX2r 0 (a - w)" "\<not> d \<ge> a + w"
    using assms unfolding VMAX2r_def by auto
  show "window_value a w d = ((d - a + w) / w) * ((d - a + w) / w) * (3 - (d - a + w) / w) / 4"
    using m window_cubic[OF assms(1), of "d - a + w"] unfolding window_value_def by (simp add: Let_def)
  show "window_value a w d = 0.75 * (d - a + w)\<^sup>2 / w\<^sup>2 - 0.25 * (d - a + w) ^ 3 / w ^ 3"
    using m unfolding window_value_def
    by (simp add: Let_def VSQR_def power2_eq_square power3_eq_cube)
qed

lemma window_value_range:
  assumes w: "0 < w" and d: "0 \<le> d"
  shows "0 \<le> window_value a w d \<and> window_value a w d \<le> 1"
proof (cases "d \<le> VMAX2r 0 (a - w) \<or> d \<ge> a + w")
  case True
  then show ?thesis unfolding window_value_def by auto
next
  case False
  then have m: "0 < d" "a - w < d" "d < a + w" unfolding VMAX2r_def by (auto split: if_splits)
  then have "0 < (d - a + w) / w" "(d - a + w) / w < 2" using w by (simp_all add: field_simps)
  then show ?thesis
    unfolding window_value_mid(1)[OF w m] using cubic_bounds[of "(d - a + w) / w"] by simp
qed

lemma window_value_mono:
  assumes w: "0 < w" and d: "0 \<le> d" "d \<le> d'"
  shows "window_value a w d \<le> window_value a w d'"
proof (cases "d \<le> VMAX2r 0 (a - w)")
  case True
  then have "window_value a w d = 0" unfolding window_value_def by simp
  then show ?thesis using window_value_range[OF w, of d' a] d by simp
next
  case lo: False
  then have m: "0 < d" "a - w < d" unfolding VMAX2r_def by (auto split: if_splits)
  then have m': "0 < d'" "a - w < d'" using d by linarith+
  show ?thesis
  proof (cases "d' \<ge> a + w")
    case True
    then have "window_value a w d' = 1" using m' unfolding window_value_def VMAX2r_def by auto
    then show ?thesis using window_value_range[OF w d(1), of a] by simp
  next
    case False
    then have h': "d' < a + w" by simp
    then have h: "d < a + w" using d by linarith
    have q: "(d - a + w) / w \<le> (d' - a + w) / w" using d w by (simp add: divide_right_mono)
    have "0 \<le> (d - a + w) / w" "(d' - a + w) / w \<le> 2" using m h' w by (simp_all add: field_simps)
    then show ?thesis
      unfolding window_value_mid(1)[OF w m h] window_value_mid(1)[OF w m' h']
      using q by (intro cubic_mono) simp_all
  qed
qed

lemma window_value_lo: "0 \<le> d \<Longrightarrow> d \<le> a - w \<Longrightarrow> window_value a w d = 0"
  unfolding window_value_def VMAX2r_def by simp

lemma window_value_zero: "window_value a w 0 = 0"
  unfolding window_value_def VMAX2r_def by simp

lemma window_value_hi: "0 < w \<Longrightarrow> 0 < a + w \<Longrightarrow> a + w \<le> d \<Longrightarrow> window_value a w d = 1"
  unfolding window_value_def VMAX2r_def by simp

lemma sqrt_dist2_x [simp]: "sqrt (dist2 (a, 0, 0) (x, 0, 0)) = \<bar>a - x\<bar>"
  by (simp add: dist2_def VSQR_def)

lemma lone_getAtom: "Valist_getAtom (alist lone_vacc) 0 = Inr lone_atom"
  by (simp add: lone_fields Valist_getAtom_def)

lemma duo_vacc_ctor: "Vacc_ctor2 (10 ^ 9) duo_atoms 3 3 3 3 4 = Inr duo_vacc"
proof -
  obtain thee where "Vacc_ctor2 (10 ^ 9) duo_atoms 3 3 3 3 4 = Inr thee"
    using Vacc_ctor2_total[of 3 3 3 "10 ^ 9" duo_atoms 3 4] by auto
  then show ?thesis unfolding duo_vacc_def by simp
qed

lemma duo_getAtom:
  "Valist_getAtom (alist duo_vacc) 0 = Inr \<lparr> position = (0, 0, 0), radius = 2 \<rparr>"
  "Valist_getAtom (alist duo_vacc) 1 = Inr \<lparr> position = (3, 0, 0), radius = 2 \<rparr>"
  unfolding Vacc_ctor2_fields(1)[OF duo_vacc_ctor]
  by (simp_all add: duo_atoms_def Valist_getAtom_def)

subsection \<open>The gradient of one atom\<close>

lemma window_slope:
  fixes w s :: real
  assumes "0 < w"
  shows "1.5 * s * (1 / (w * w)) - 0.75 * VSQR s * (1 / (w * w * w))
     = 3 * (s / w) * (2 - s / w) / (4 * w)"
  using assms by (simp add: VSQR_def field_simps)

lemma slope_pos:
  fixes t w :: real
  assumes "0 < t" "t < 2" "0 < w"
  shows "0 < 3 * t * (2 - t) / (4 * w)"
proof -
  have "0 < 3 * t * (2 - t)" using assms by (intro mult_pos_pos) simp_all
  then show ?thesis using assms(3) by simp
qed

lemma dist2_zero_iff:
  "dist2 (a0, a1, a2) (c0, c1, c2) = 0 \<longleftrightarrow> c0 = a0 \<and> c1 = a1 \<and> c2 = a2"
proof -
  have s: "0 \<le> x * x" for x :: real by simp
  have "(a0 - c0) * (a0 - c0) + (a1 - c1) * (a1 - c1) + (a2 - c2) * (a2 - c2) = 0 \<longleftrightarrow>
      (a0 - c0) * (a0 - c0) = 0 \<and> (a1 - c1) * (a1 - c1) = 0 \<and> (a2 - c2) * (a2 - c2) = 0"
    using s[of "a0 - c0"] s[of "a1 - c1"] s[of "a2 - c2"] by linarith
  then show ?thesis unfolding dist2_def VSQR_def by auto
qed

lemma splineAccGradAtom_window:
  assumes g: "Valist_getAtom (alist thee) atomID = Inr atom" and r: "0 < radius atom"
    and lo: "radius atom + infrad - win < sqrt (dist2 (position atom) center)"
    and hi: "sqrt (dist2 (position atom) center) < radius atom + infrad + win"
    and d: "0 < sqrt (dist2 (position atom) center)"
  shows "\<exists>q. q \<noteq> 0 \<and>
     Vacc_splineAccGradAtom thee center win infrad atomID =
       Inr (- q * ((fst center - fst (position atom)) / sqrt (dist2 (position atom) center)),
            - q * ((fst (snd center) - fst (snd (position atom))) / sqrt (dist2 (position atom) center)),
            - q * ((snd (snd center) - snd (snd (position atom))) / sqrt (dist2 (position atom) center)))"
    and "Vacc_splineAccGradAtom thee center win infrad atomID \<noteq> Inr (0, 0, 0)"
    and "\<exists>v. Vacc_splineAccGradAtom thee center win infrad atomID = Inr v"
proof -
  let ?d = "sqrt (dist2 (position atom) center)"
  let ?sm = "?d - (radius atom + infrad) + win"
  let ?chi = "0.75 * VSQR ?sm * (1 / (win * win)) - 0.25 * ?sm * VSQR ?sm * (1 / (win * win * win))"
  let ?grad = "1.5 * ?sm * (1 / (win * win)) - 0.75 * VSQR ?sm * (1 / (win * win * win))"
  have w: "0 < win" using lo hi by linarith
  have t: "0 < ?sm / win" "?sm / win < 2" using lo hi w by (simp_all add: field_simps)
  have chi: "0 < ?chi" unfolding window_cubic[OF w] using cubic_pos[OF t] .
  have grad: "0 < ?grad" unfolding window_slope[OF w] using slope_pos[OF t w] .
  have q: "?grad / ?chi \<noteq> 0" using chi grad by simp
  have n: "\<not> ?d \<le> radius atom + infrad - win" "\<not> ?d \<ge> radius atom + infrad + win"
    using lo hi by simp_all
  have G: "Vacc_splineAccGradAtom thee center win infrad atomID =
       Inr (- (?grad / ?chi) * ((fst center - fst (position atom)) / ?d),
            - (?grad / ?chi) * ((fst (snd center) - fst (snd (position atom))) / ?d),
            - (?grad / ?chi) * ((snd (snd center) - snd (snd (position atom))) / ?d))"
    unfolding Vacc_splineAccGradAtom_def Let_def g bind_result_Inr
    by (simp only: r n chi if_True if_False case_prod_beta)
  show "\<exists>q. q \<noteq> 0 \<and>
     Vacc_splineAccGradAtom thee center win infrad atomID =
       Inr (- q * ((fst center - fst (position atom)) / ?d),
            - q * ((fst (snd center) - fst (snd (position atom))) / ?d),
            - q * ((snd (snd center) - snd (snd (position atom))) / ?d))"
    using q G by blast
  obtain c0 c1 c2 where c: "center = (c0, c1, c2)" by (cases center) auto
  obtain a0 a1 a2 where a: "position atom = (a0, a1, a2)" by (cases "position atom") auto
  have "dist2 (a0, a1, a2) (c0, c1, c2) \<noteq> 0" using d unfolding c a by auto
  then have "\<not> (c0 = a0 \<and> c1 = a1 \<and> c2 = a2)" unfolding dist2_zero_iff .
  then have "(fst center - fst (position atom)) / ?d \<noteq> 0 \<or>
      (fst (snd center) - fst (snd (position atom))) / ?d \<noteq> 0 \<or>
      (snd (snd center) - snd (snd (position atom))) / ?d \<noteq> 0"
    using d unfolding c a by auto
  then have "- (?grad / ?chi) * ((fst center - fst (position atom)) / ?d) \<noteq> 0 \<or>
      - (?grad / ?chi) * ((fst (snd center) - fst (snd (position atom))) / ?d) \<noteq> 0 \<or>
      - (?grad / ?chi) * ((snd (snd center) - snd (snd (position atom))) / ?d) \<noteq> 0"
    using q by (simp only: mult_eq_0_iff neg_equal_0_iff_equal) blast
  then show "Vacc_splineAccGradAtom thee center win infrad atomID \<noteq> Inr (0, 0, 0)"
    unfolding G by (simp only: sum.inject prod.inject) blast
  show "\<exists>v. Vacc_splineAccGradAtom thee center win infrad atomID = Inr v" using G by blast
qed

lemma unit_vacc_ctor: "Vacc_ctor2 (10 ^ 9) [unit_atom] 1 3 3 3 4 = Inr unit_vacc"
proof -
  obtain thee where "Vacc_ctor2 (10 ^ 9) [unit_atom] 1 3 3 3 4 = Inr thee"
    using Vacc_ctor2_total[of 3 3 3 "10 ^ 9" "[unit_atom]" 1 4] by auto
  then show ?thesis unfolding unit_vacc_def by simp
qed

lemma unit_getAtom: "Valist_getAtom (alist unit_vacc) 0 = Inr unit_atom"
  unfolding Vacc_ctor2_fields(1)[OF unit_vacc_ctor] by (simp add: Valist_getAtom_def)

lemma unit_grad: "Vacc_splineAccGradAtom unit_vacc (1, 0, 0) (1 / 2) 0 0 = Inr (- 3, 0, 0)"
  unfolding Vacc_splineAccGradAtom_def
  by (simp add: unit_getAtom unit_atom_def Let_def VSQR_def)

subsection \<open>The loops of the smoothed characteristic function\<close>

lemma array_set_int [simp]:
  "0 \<le> i \<Longrightarrow> i < int (length xs) \<Longrightarrow> array_set xs i v = Inr (xs[nat i := v])"
  by (simp add: array_set_def)

lemma nat_neq: "0 \<le> x \<Longrightarrow> 0 \<le> y \<Longrightarrow> x \<noteq> y \<Longrightarrow> nat x \<noteq> nat y"
  by (simp add: eq_nat_nat_iff)

lemma splineAccAtom_factor:
  assumes "0 \<le> a" "a < int (length (alist thee))"
  shows "Vacc_splineAccAtom thee center win infrad a = Inr (atom_factor thee center win infrad a)"
  using assms unfolding Vacc_splineAccAtom_def atom_factor_def window_value_def
  by (simp add: Let_def)

lemma splineAcc_reset_ok:
  assumes "0 \<le> ui" "ui < int (length (atomIDs thee))"
    "\<forall>a\<in>set (atomIDs thee ! nat ui). 0 \<le> a \<and> a < int L"
  shows "\<forall>k\<in>set idxs. 0 \<le> k \<and> k < int (length (atomIDs thee ! nat ui)) \<Longrightarrow> length flags = L \<Longrightarrow>
    \<exists>flags'. splineAcc_reset thee ui idxs flags = Inr flags' \<and> length flags' = L \<and>
      (\<forall>k\<in>set idxs. flags' ! nat (atomIDs thee ! nat ui ! nat k) = 0)"
proof (induction idxs arbitrary: flags)
  case Nil
  then show ?case by simp
next
  case (Cons k idxs)
  let ?ids = "atomIDs thee ! nat ui"
  let ?a = "?ids ! nat k"
  have k: "0 \<le> k" "k < int (length ?ids)" using Cons.prems by simp_all
  then have "nat k < length ?ids" by linarith
  then have "?a \<in> set ?ids" by (rule nth_mem)
  then have a: "0 \<le> ?a" "?a < int (length flags)" using assms(3) Cons.prems(2) by auto
  let ?f = "flags[nat ?a := 0]"
  have "\<forall>k\<in>set idxs. 0 \<le> k \<and> k < int (length ?ids)" using Cons.prems by simp
  moreover have "length ?f = L" using Cons.prems by simp
  ultimately obtain flags' where r: "splineAcc_reset thee ui idxs ?f = Inr flags'" "length flags' = L"
    "\<forall>k\<in>set idxs. flags' ! nat (?ids ! nat k) = 0"
    using Cons.IH[of ?f] by blast
  have step: "splineAcc_reset thee ui (k # idxs) flags = Inr flags'"
    using assms(1,2) k a r(1) by simp
  have "flags' ! nat ?a = 0"
  proof (cases "\<exists>j\<in>set idxs. ?ids ! nat j = ?a")
    case True
    then show ?thesis using r(3) by auto
  next
    case False
    have keep: "\<forall>j\<in>set js. ?ids ! nat j \<noteq> ?a \<Longrightarrow> \<forall>j\<in>set js. 0 \<le> j \<and> j < int (length ?ids) \<Longrightarrow>
        length g = L \<Longrightarrow> splineAcc_reset thee ui js g = Inr g' \<Longrightarrow> g' ! nat ?a = g ! nat ?a"
      for js g g'
    proof (induction js arbitrary: g)
      case Nil
      then show ?case by simp
    next
      case (Cons j js)
      let ?b = "?ids ! nat j"
      have j: "0 \<le> j" "j < int (length ?ids)" using Cons.prems by simp_all
      then have "nat j < length ?ids" by linarith
      then have "?b \<in> set ?ids" by (rule nth_mem)
      then have b: "0 \<le> ?b" "?b < int (length g)" using assms(3) Cons.prems(3) by auto
      have "?b \<noteq> ?a" using Cons.prems(1) by simp
      then have ne: "nat ?b \<noteq> nat ?a" using b(1) a(1) by (intro nat_neq)
      have "splineAcc_reset thee ui js (g[nat ?b := 0]) = Inr g'"
        using Cons.prems(4) assms(1,2) j b by simp
      then have "g' ! nat ?a = (g[nat ?b := 0]) ! nat ?a"
        using Cons.prems by (intro Cons.IH) simp_all
      then show ?case using ne by simp
    qed
    have "flags' ! nat ?a = ?f ! nat ?a"
      using False Cons.prems r(1) by (intro keep[of idxs ?f flags']) simp_all
    moreover have "nat ?a < length flags" using a by linarith
    ultimately show ?thesis by simp
  qed
  then show ?case using step r by auto
qed

lemma running_product_partial:
  "running_product eps v fs = v * prod_list fs \<or> running_product eps v fs < eps"
proof (induction fs arbitrary: v)
  case Nil
  then show ?case by simp
next
  case (Cons a fs)
  show ?case
  proof (cases "v * a < eps")
    case True
    then show ?thesis by (simp add: Let_def)
  next
    case False
    then show ?thesis using Cons.IH[of "v * a"] by (simp add: Let_def mult.assoc)
  qed
qed

lemma running_product_zero:
  "running_product eps v fs = 0 \<Longrightarrow> v * prod_list fs = 0"
proof (induction fs arbitrary: v)
  case Nil
  then show ?case by simp
next
  case (Cons a fs)
  show ?case
  proof (cases "v * a < eps")
    case True
    then have "v * a = 0" using Cons.prems by (simp add: Let_def)
    then show ?thesis by auto
  next
    case False
    then have "running_product eps (v * a) fs = 0" using Cons.prems by (simp add: Let_def)
    then have "v * a * prod_list fs = 0" by (rule Cons.IH)
    then show ?thesis by (simp add: mult.assoc)
  qed
qed

lemma first_occurrences_distinct:
  "distinct xs \<Longrightarrow> set xs \<inter> set seen = {} \<Longrightarrow> first_occurrences seen xs = xs"
  by (induction xs arbitrary: seen) auto

lemma splineAcc_loop_char:
  assumes "0 \<le> ui" "ui < int (length (atomIDs thee))"
    "\<forall>a\<in>set (atomIDs thee ! nat ui). 0 \<le> a \<and> a < int L \<and> a < int (length (alist thee))"
  shows "\<forall>k\<in>set idxs. 0 \<le> k \<and> k < int (length (atomIDs thee ! nat ui)) \<Longrightarrow> length flags = L \<Longrightarrow>
    \<forall>a\<in>set (atomIDs thee ! nat ui). flags ! nat a \<noteq> 0 \<longleftrightarrow> a \<in> set seen \<Longrightarrow>
    \<exists>flags'. splineAcc_loop vsmall thee center win infrad ui idxs flags val =
       Inr (running_product vsmall val
              (map (atom_factor thee center win infrad)
                 (first_occurrences seen (map (\<lambda>k. atomIDs thee ! nat ui ! nat k) idxs))),
            flags') \<and> length flags' = L"
proof (induction idxs arbitrary: flags val seen)
  case Nil
  then show ?case by simp
next
  case (Cons k idxs)
  let ?ids = "atomIDs thee ! nat ui"
  let ?a = "?ids ! nat k"
  have k: "0 \<le> k" "k < int (length ?ids)" using Cons.prems by simp_all
  then have "nat k < length ?ids" by linarith
  then have mem: "?a \<in> set ?ids" by (rule nth_mem)
  then have a: "0 \<le> ?a" "?a < int (length flags)" "?a < int (length (alist thee))"
    using assms(3) Cons.prems(2) by auto
  have rest: "\<forall>k\<in>set idxs. 0 \<le> k \<and> k < int (length ?ids)" using Cons.prems by simp
  show ?case
  proof (cases "flags ! nat ?a = 0")
    case False
    then have s: "?a \<in> set seen" using Cons.prems(3) mem by blast
    from Cons.IH[OF rest Cons.prems(2,3), of val] obtain flags' where
      r: "splineAcc_loop vsmall thee center win infrad ui idxs flags val =
       Inr (running_product vsmall val
              (map (atom_factor thee center win infrad)
                 (first_occurrences seen (map (\<lambda>k. ?ids ! nat k) idxs))), flags')"
      "length flags' = L" by blast
    have "splineAcc_loop vsmall thee center win infrad ui (k # idxs) flags val =
        splineAcc_loop vsmall thee center win infrad ui idxs flags val"
      using assms(1,2) k a False by simp
    then show ?thesis using r s by simp
  next
    case True
    then have s: "?a \<notin> set seen" using Cons.prems(3) mem by blast
    let ?f = "flags[nat ?a := 1]"
    let ?v = "val * atom_factor thee center win infrad ?a"
    have lf: "length ?f = L" using Cons.prems by simp
    have inv: "\<forall>b\<in>set ?ids. ?f ! nat b \<noteq> 0 \<longleftrightarrow> b \<in> set (?a # seen)"
    proof
      fix b assume b: "b \<in> set ?ids"
      then have b0: "0 \<le> b" using assms(3) by blast
      show "?f ! nat b \<noteq> 0 \<longleftrightarrow> b \<in> set (?a # seen)"
      proof (cases "b = ?a")
        case True
        have "nat ?a < length flags" using a by linarith
        then show ?thesis using True by simp
      next
        case False
        then have "nat b \<noteq> nat ?a" using b0 a(1) by (intro nat_neq)
        then show ?thesis using False Cons.prems(3) b by simp
      qed
    qed
    from Cons.IH[OF rest lf inv, of ?v] obtain flags' where
      r: "splineAcc_loop vsmall thee center win infrad ui idxs ?f ?v =
       Inr (running_product vsmall ?v
              (map (atom_factor thee center win infrad)
                 (first_occurrences (?a # seen) (map (\<lambda>k. ?ids ! nat k) idxs))), flags')"
      "length flags' = L" by blast
    have step: "splineAcc_loop vsmall thee center win infrad ui (k # idxs) flags val =
        (if ?v < vsmall then Inr (?v, ?f)
         else splineAcc_loop vsmall thee center win infrad ui idxs ?f ?v)"
      using assms(1,2) k a True by (simp add: splineAccAtom_factor Let_def)
    show ?thesis
    proof (cases "?v < vsmall")
      case True
      then show ?thesis unfolding step using s lf by (simp add: Let_def)
    next
      case False
      then show ?thesis unfolding step using s r by (simp add: Let_def)
    qed
  qed
qed

lemma map_nth_upto: "map (\<lambda>k. xs ! nat k) [0..int (length xs) - 1] = xs"
proof (rule nth_equalityI)
  show "length (map (\<lambda>k. xs ! nat k) [0..int (length xs) - 1]) = length xs" by simp
  fix i assume "i < length (map (\<lambda>k. xs ! nat k) [0..int (length xs) - 1])"
  then have i: "i < length xs" by simp
  then have "[0..int (length xs) - 1] ! i = int i" by (simp add: nth_upto)
  then show "map (\<lambda>k. xs ! nat k) [0..int (length xs) - 1] ! i = xs ! i" using i by simp
qed

lemma Vacc_splineAcc_char:
  assumes wf: "Vacc_wf thee" and ok: "win + infrad \<le> max_radius thee"
    and on: "\<not> off_grid thee center"
    and fl: "\<forall>a\<in>set (atomIDs thee ! nat (cell_ui thee center)). a < int (length (atomFlags thee))"
  shows "\<exists>flags'. Vacc_splineAcc vsmall thee center win infrad =
     Inr (running_product vsmall 1
            (map (atom_factor thee center win infrad)
               (first_occurrences [] (atomIDs thee ! nat (cell_ui thee center)))),
          thee\<lparr>atomFlags := flags'\<rparr>)"
proof -
  let ?ui = "cell_ui thee center"
  let ?ids = "atomIDs thee ! nat ?ui"
  let ?idxs = "[0..int (length ?ids) - 1]"
  let ?L = "length (atomFlags thee)"
  note c = wf_cell[OF wf on]
  have rng: "\<forall>k\<in>set ?idxs. 0 \<le> k \<and> k < int (length ?ids)" by simp
  have b1: "\<forall>a\<in>set ?ids. 0 \<le> a \<and> a < int ?L" using c(5) fl by blast
  have b2: "\<forall>a\<in>set ?ids. 0 \<le> a \<and> a < int ?L \<and> a < int (length (alist thee))"
    using c(5) fl by blast
  from splineAcc_reset_ok[OF c(1,2) b1 rng refl] obtain flags0 where
    r: "splineAcc_reset thee ?ui ?idxs (atomFlags thee) = Inr flags0" "length flags0 = ?L"
    "\<forall>k\<in>set ?idxs. flags0 ! nat (?ids ! nat k) = 0" by blast
  have "\<forall>a\<in>(\<lambda>k. ?ids ! nat k) ` set ?idxs. flags0 ! nat a = 0" using r(3) by blast
  then have z: "\<forall>a\<in>set ?ids. flags0 ! nat a \<noteq> 0 \<longleftrightarrow> a \<in> set []"
    unfolding upto_bucket_set by simp
  from splineAcc_loop_char[OF c(1,2) b2 rng r(2) z, of vsmall center win infrad 1]
  obtain flags' where
    l: "splineAcc_loop vsmall thee center win infrad ?ui ?idxs flags0 1 =
       Inr (running_product vsmall 1
              (map (atom_factor thee center win infrad) (first_occurrences [] ?ids)), flags')"
    unfolding map_nth_upto by blast
  have "Vacc_splineAcc vsmall thee center win infrad =
     Inr (running_product vsmall 1
            (map (atom_factor thee center win infrad) (first_occurrences [] ?ids)),
          thee\<lparr>atomFlags := flags'\<rparr>)"
    using ok on c(1,3,4) r(1) l unfolding Vacc_splineAcc_def by (simp add: Let_def)
  then show ?thesis by blast
qed

subsection \<open>The structure of the two atoms\<close>

lemma duo_wf: "Vacc_wf duo_vacc"
  by (rule Vacc_ctor2_wf[OF duo_vacc_ctor])

lemma duo_grid:
  "Vacc_grid duo_vacc =
     \<lparr> g_hx = 86 / 10, g_hy = 71 / 10, g_hzed = 71 / 10,
       g_lower = (- (71 / 10), - (71 / 10), - (71 / 10)),
       g_nx = 3, g_ny = 3, g_nz = 3, g_max_radius = 3 \<rparr>"
  unfolding Vacc_ctor2_fields(7)[OF duo_vacc_ctor]
  by (simp add: ctor2_grid_def find_extents_def extents_step_def duo_atoms_def Let_def)

lemma duo_fields:
  "alist duo_vacc = duo_atoms" "nx duo_vacc = 3" "ny duo_vacc = 3" "nz duo_vacc = 3"
  "max_radius duo_vacc = 3" "hx duo_vacc = 86 / 10" "hy duo_vacc = 71 / 10"
  "hzed duo_vacc = 71 / 10"
  "grid_lower_corner duo_vacc = (- (71 / 10), - (71 / 10), - (71 / 10))"
  "atomFlags duo_vacc = replicate 27 0"
proof -
  note f = Vacc_ctor2_fields[OF duo_vacc_ctor]
  show "alist duo_vacc = duo_atoms" "nx duo_vacc = 3" "ny duo_vacc = 3" "nz duo_vacc = 3"
    "max_radius duo_vacc = 3" "atomFlags duo_vacc = replicate 27 0" using f by simp_all
  have "g_hx (Vacc_grid duo_vacc) = 86 / 10" "g_hy (Vacc_grid duo_vacc) = 71 / 10"
    "g_hzed (Vacc_grid duo_vacc) = 71 / 10"
    "g_lower (Vacc_grid duo_vacc) = (- (71 / 10), - (71 / 10), - (71 / 10))"
    unfolding duo_grid by simp_all
  then show "hx duo_vacc = 86 / 10" "hy duo_vacc = 71 / 10" "hzed duo_vacc = 71 / 10"
    "grid_lower_corner duo_vacc = (- (71 / 10), - (71 / 10), - (71 / 10))"
    by (simp_all add: Vacc_grid_def)
qed

lemma duo_bucket_4: "atomIDs duo_vacc ! 4 = [0, 1]"
proof -
  have g: "g_ny (Vacc_grid duo_vacc) = 3" "g_nz (Vacc_grid duo_vacc) = 3"
    unfolding duo_grid by simp_all
  have r0: "i_min (Vacc_grid duo_vacc) (duo_atoms ! 0) \<le> 0 \<and> 0 \<le> i_max (Vacc_grid duo_vacc) (duo_atoms ! 0) \<and>
      j_min (Vacc_grid duo_vacc) (duo_atoms ! 0) \<le> 1 \<and> 1 \<le> j_max (Vacc_grid duo_vacc) (duo_atoms ! 0) \<and>
      k_min (Vacc_grid duo_vacc) (duo_atoms ! 0) \<le> 1 \<and> 1 \<le> k_max (Vacc_grid duo_vacc) (duo_atoms ! 0)"
    unfolding duo_grid
    by (simp add: i_min_def i_max_def j_min_def j_max_def k_min_def k_max_def duo_atoms_def
        VMIN2_def VMAX2_def)
  have r1: "i_min (Vacc_grid duo_vacc) (duo_atoms ! 1) \<le> 0 \<and> 0 \<le> i_max (Vacc_grid duo_vacc) (duo_atoms ! 1) \<and>
      j_min (Vacc_grid duo_vacc) (duo_atoms ! 1) \<le> 1 \<and> 1 \<le> j_max (Vacc_grid duo_vacc) (duo_atoms ! 1) \<and>
      k_min (Vacc_grid duo_vacc) (duo_atoms ! 1) \<le> 1 \<and> 1 \<le> k_max (Vacc_grid duo_vacc) (duo_atoms ! 1)"
    unfolding duo_grid
    by (simp add: i_min_def i_max_def j_min_def j_max_def k_min_def k_max_def duo_atoms_def
        VMIN2_def VMAX2_def)
  have "g_nz (Vacc_grid duo_vacc) * g_ny (Vacc_grid duo_vacc) * 0
      + g_nz (Vacc_grid duo_vacc) * 1 + 1 \<in> set (atom_cells (Vacc_grid duo_vacc) (duo_atoms ! 0))"
    using r0 by (subst atom_cells_cell_iff) (simp_all add: g)
  then have m0: "4 \<in> set (atom_cells (Vacc_grid duo_vacc) (duo_atoms ! 0))" by (simp add: g)
  have "g_nz (Vacc_grid duo_vacc) * g_ny (Vacc_grid duo_vacc) * 0
      + g_nz (Vacc_grid duo_vacc) * 1 + 1 \<in> set (atom_cells (Vacc_grid duo_vacc) (duo_atoms ! 1))"
    using r1 by (subst atom_cells_cell_iff) (simp_all add: g)
  then have m1: "4 \<in> set (atom_cells (Vacc_grid duo_vacc) (duo_atoms ! 1))" by (simp add: g)
  have l: "length duo_atoms = 2" by (simp add: duo_atoms_def)
  have "atomIDs duo_vacc ! 4 = map int (cell_atoms (Vacc_grid duo_vacc) duo_atoms (length duo_atoms) (int 4))"
    by (rule Vacc_ctor2_buckets(3)[OF duo_vacc_ctor]) simp
  also have "\<dots> = map int (filter (\<lambda>i. 4 \<in> set (atom_cells (Vacc_grid duo_vacc) (duo_atoms ! i))) [0, 1])"
    unfolding cell_atoms_def l by (simp add: upt_rec)
  also have "\<dots> = [0, 1]" using m0 m1 by simp
  finally show ?thesis .
qed

lemma duo_cell_x:
  assumes "0 \<le> x" "x < 3 / 2"
  shows "\<not> off_grid duo_vacc (x, 0, 0)" "cell_ui duo_vacc (x, 0, 0) = 4"
proof -
  have "\<lfloor>(x + 71 / 10) / (86 / 10)\<rfloor> = 0" using assms by (intro floor_unique) simp_all
  then have i: "centeri duo_vacc (x, 0, 0) = 0"
    using assms by (simp add: centeri_def duo_fields int_of_double_def)
  have j: "centerj duo_vacc (x, 0, 0) = 1" "centerk duo_vacc (x, 0, 0) = 1"
    by (simp_all add: centerj_def centerk_def duo_fields int_of_double_def)
  show "\<not> off_grid duo_vacc (x, 0, 0)" "cell_ui duo_vacc (x, 0, 0) = 4"
    by (simp_all add: off_grid_def cell_ui_def i j duo_fields)
qed

lemma duo_factors_witness:
  "atom_factor duo_vacc (5 / 4, 0, 0) 1 0 0 = 11 / 256"
  "atom_factor duo_vacc (5 / 4, 0, 0) 1 0 1 = 81 / 256"
  by (simp_all add: atom_factor_def duo_fields duo_atoms_def window_value_def VMAX2r_def VSQR_def
      Let_def)

lemma duo_factors_small:
  "atom_factor duo_vacc (100001 / 100000, 0, 0) 1 0 0 = 299999 / 4000000000000000"
  "atom_factor duo_vacc (100001 / 100000, 0, 0) 1 0 1 = 1999970000000001 / 4000000000000000"
  by (simp_all add: atom_factor_def duo_fields duo_atoms_def window_value_def VMAX2r_def VSQR_def
      Let_def)

lemma duo_flags:
  assumes "0 \<le> x" "x < 3 / 2"
  shows "\<not> off_grid duo_vacc (x, 0, 0) \<longrightarrow>
       (\<forall>a\<in>set (atomIDs duo_vacc ! nat (cell_ui duo_vacc (x, 0, 0))). a < int (length (atomFlags duo_vacc)))"
  using duo_cell_x[OF assms] by (simp add: duo_bucket_4 duo_fields)

subsection \<open>The array of flags has one entry per grid cell\<close>

text \<open>
  \<open>Vacc_ctor2\<close> allocates \<open>atomFlags\<close> with \<open>thee->n\<close> entries, the number of grid cells,
  and \<open>Vacc_splineAcc\<close> indexes it by atom identifier. With more atoms than cells the
  reset loop leaves the array.
\<close>

lemma splineAcc_reset_overflow:
  assumes "0 \<le> ui" "ui < int (length (atomIDs thee))"
  shows "\<exists>k\<in>set idxs. \<not> (0 \<le> atomIDs thee ! nat ui ! nat k \<and>
            atomIDs thee ! nat ui ! nat k < int (length flags)) \<Longrightarrow>
    splineAcc_reset thee ui idxs flags = Inl OutOfBounds"
proof (induction idxs arbitrary: flags)
  case Nil
  then show ?case by simp
next
  case (Cons k idxs)
  let ?ids = "atomIDs thee ! nat ui"
  show ?case
  proof (cases "0 \<le> k \<and> k < int (length ?ids)")
    case False
    then show ?thesis using assms by (auto simp add: array_get_def)
  next
    case k: True
    show ?thesis
    proof (cases "0 \<le> ?ids ! nat k \<and> ?ids ! nat k < int (length flags)")
      case False
      then show ?thesis using assms k by (auto simp add: array_set_def)
    next
      case True
      then have "\<exists>j\<in>set idxs. \<not> (0 \<le> ?ids ! nat j \<and>
            ?ids ! nat j < int (length (flags[nat (?ids ! nat k) := 0])))"
        using Cons.prems by auto
      then have "splineAcc_reset thee ui idxs (flags[nat (?ids ! nat k) := 0]) = Inl OutOfBounds"
        by (rule Cons.IH)
      then show ?thesis using assms k True by simp
    qed
  qed
qed

lemma extents_step_twice: "extents_step (extents_step e a) a = extents_step e a"
  by (cases "position a") (simp add: extents_step_def)

lemma find_extents_replicate:
  "find_extents vlarge (replicate (Suc n) a) = find_extents vlarge [a]"
proof -
  have "foldl extents_step (extents_step e a) (replicate n a) = extents_step e a" for e
    by (induction n) (simp_all add: extents_step_twice)
  then show ?thesis by (simp add: find_extents_def)
qed

lemma crowd_vacc_ctor: "Vacc_ctor2 (10 ^ 9) (replicate 28 lone_atom) 20 3 3 3 4 = Inr crowd_vacc"
proof -
  obtain thee where "Vacc_ctor2 (10 ^ 9) (replicate 28 lone_atom) 20 3 3 3 4 = Inr thee"
    using Vacc_ctor2_total[of 3 3 3 "10 ^ 9" "replicate 28 lone_atom" 20 4] by auto
  then show ?thesis unfolding crowd_vacc_def by simp
qed

lemma crowd_grid: "Vacc_grid crowd_vacc = Vacc_grid lone_vacc"
proof -
  have "replicate 28 lone_atom = replicate (Suc 27) lone_atom" by simp
  then have "find_extents (10 ^ 9) (replicate 28 lone_atom) = find_extents (10 ^ 9) [lone_atom]"
    by (simp only: find_extents_replicate)
  then show ?thesis
    unfolding Vacc_ctor2_fields(7)[OF crowd_vacc_ctor] Vacc_ctor2_fields(7)[OF lone_vacc_ctor]
    by (simp add: ctor2_grid_def)
qed

lemma crowd_bucket_13: "atomIDs crowd_vacc ! 13 = map int [0..<28]"
proof -
  have g: "g_ny (Vacc_grid lone_vacc) = 3" "g_nz (Vacc_grid lone_vacc) = 3"
    unfolding lone_grid by simp_all
  have "g_nz (Vacc_grid lone_vacc) * g_ny (Vacc_grid lone_vacc) * 1
      + g_nz (Vacc_grid lone_vacc) * 1 + 1 \<in> set (atom_cells (Vacc_grid lone_vacc) lone_atom)"
    by (subst atom_cells_cell_iff) (simp_all add: g lone_ranges)
  then have m: "13 \<in> set (atom_cells (Vacc_grid lone_vacc) lone_atom)" by (simp add: g)
  have "atomIDs crowd_vacc ! 13 =
      map int (cell_atoms (Vacc_grid crowd_vacc) (replicate 28 lone_atom)
        (length (replicate 28 lone_atom)) (int 13))"
    by (rule Vacc_ctor2_buckets(3)[OF crowd_vacc_ctor]) simp
  also have "cell_atoms (Vacc_grid crowd_vacc) (replicate 28 lone_atom)
        (length (replicate 28 lone_atom)) (int 13) = [0..<28]"
    unfolding cell_atoms_def crowd_grid using m by (auto intro!: filter_True)
  finally show ?thesis .
qed

lemma crowd_flags_overflow:
  "Vacc_ctor2 (10 ^ 9) (replicate 28 lone_atom) 20 3 3 3 4 = Inr crowd_vacc \<and>
   10 + 0 \<le> max_radius crowd_vacc \<and> \<not> off_grid crowd_vacc (0, 0, 0) \<and>
   length (atomFlags crowd_vacc) = 27 \<and>
   Vacc_splineAcc (1 / 10 ^ 9) crowd_vacc (0, 0, 0) 10 0 = Inl OutOfBounds"
proof -
  note f = Vacc_ctor2_fields[OF crowd_vacc_ctor]
  have "g_hx (Vacc_grid crowd_vacc) = 71" "g_hy (Vacc_grid crowd_vacc) = 71"
    "g_hzed (Vacc_grid crowd_vacc) = 71" "g_lower (Vacc_grid crowd_vacc) = (- 71, - 71, - 71)"
    unfolding crowd_grid lone_grid by simp_all
  then have h: "hx crowd_vacc = 71" "hy crowd_vacc = 71" "hzed crowd_vacc = 71"
    "grid_lower_corner crowd_vacc = (- 71, - 71, - 71)"
    by (simp_all add: Vacc_grid_def)
  have c: "centeri crowd_vacc (0, 0, 0) = 1" "centerj crowd_vacc (0, 0, 0) = 1"
    "centerk crowd_vacc (0, 0, 0) = 1"
    by (simp_all add: centeri_def centerj_def centerk_def h int_of_double_def)
  have on: "\<not> off_grid crowd_vacc (0, 0, 0)" by (simp add: off_grid_def c f)
  have ui: "cell_ui crowd_vacc (0, 0, 0) = 13" by (simp add: cell_ui_def c f)
  have m: "10 + 0 \<le> max_radius crowd_vacc" by (simp add: f)
  have lf: "length (atomFlags crowd_vacc) = 27" by (simp add: f)
  note w = wf_cell[OF Vacc_ctor2_wf[OF crowd_vacc_ctor] on, unfolded ui]
  have n: "natoms crowd_vacc ! 13 = 28" using w(4) by (simp add: crowd_bucket_13)
  have "27 \<in> set [0..(27::int)]" by simp
  moreover have "\<not> (0 \<le> atomIDs crowd_vacc ! nat 13 ! nat 27 \<and>
      atomIDs crowd_vacc ! nat 13 ! nat 27 < int (length (atomFlags crowd_vacc)))"
    by (simp add: crowd_bucket_13 lf)
  ultimately have "\<exists>k\<in>set [0..27]. \<not> (0 \<le> atomIDs crowd_vacc ! nat 13 ! nat k \<and>
      atomIDs crowd_vacc ! nat 13 ! nat k < int (length (atomFlags crowd_vacc)))" by blast
  from splineAcc_reset_overflow[OF w(1,2) this]
  have "splineAcc_reset crowd_vacc 13 [0..27] (atomFlags crowd_vacc) = Inl OutOfBounds" .
  then have "Vacc_splineAcc (1 / 10 ^ 9) crowd_vacc (0, 0, 0) 10 0 = Inl OutOfBounds"
    using on m w(1,3) n unfolding Vacc_splineAcc_def ui by (simp add: Let_def)
  then show ?thesis using crowd_vacc_ctor m on lf by simp
qed

subsection \<open>Two atoms at one place\<close>

lemma twin_grid:
  "ctor2_grid vlarge [a, a] max_rad nx0 ny0 nz0 = ctor2_grid vlarge [a] max_rad nx0 ny0 nz0"
proof -
  have "[a, a] = replicate (Suc 1) a" by simp
  then have "find_extents vlarge [a, a] = find_extents vlarge [a]"
    by (simp only: find_extents_replicate)
  then show ?thesis by (simp add: ctor2_grid_def)
qed

lemma twin_spacing:
  assumes c: "Vacc_ctor2 vlarge [a, a] max_rad nx0 ny0 nz0 nsphere0 = Inr thee"
    and R: "0 < radius a" and m: "0 \<le> max_rad"
  shows "0 < hx thee" "0 < hy thee" "0 < hzed thee"
proof -
  note d = Vacc_ctor2_dims[OF c]
  obtain x y z where p: "position a = (x, y, z)" by (cases "position a") auto
  let ?e = "find_extents vlarge [a]"
  have e: "0 \<le> x_max ?e - x_min ?e" "0 \<le> y_max ?e - y_min ?e" "0 \<le> z_max ?e - z_min ?e"
    "0 < rmax ?e"
    using R by (simp_all add: find_extents_def extents_step_def p)
  have n: "0 < real_of_int (nx0 - 1)" "0 < real_of_int (ny0 - 1)" "0 < real_of_int (nz0 - 1)"
    using d by simp_all
  have g: "Vacc_grid thee = ctor2_grid vlarge [a] max_rad nx0 ny0 nz0"
    using Vacc_ctor2_fields(7)[OF c] by (simp only: twin_grid)
  have "hx thee = g_hx (Vacc_grid thee)" "hy thee = g_hy (Vacc_grid thee)"
    "hzed thee = g_hzed (Vacc_grid thee)" by (simp_all add: Vacc_grid_def)
  then have h: "hx thee = (x_max ?e - x_min ?e + 2.84 * (rmax ?e + max_rad)) / real_of_int (nx0 - 1)"
    "hy thee = (y_max ?e - y_min ?e + 2.84 * (rmax ?e + max_rad)) / real_of_int (ny0 - 1)"
    "hzed thee = (z_max ?e - z_min ?e + 2.84 * (rmax ?e + max_rad)) / real_of_int (nz0 - 1)"
    unfolding g by (simp_all add: ctor2_grid_def Let_def)
  have "0 < rmax ?e + max_rad" using e(4) m by linarith
  then have q: "0 < 2.84 * (rmax ?e + max_rad)" by simp
  have "0 < x_max ?e - x_min ?e + 2.84 * (rmax ?e + max_rad)"
    "0 < y_max ?e - y_min ?e + 2.84 * (rmax ?e + max_rad)"
    "0 < z_max ?e - z_min ?e + 2.84 * (rmax ?e + max_rad)"
    using e(1) q apply linarith using e(2) q apply linarith using e(3) q by linarith
  then show "0 < hx thee" "0 < hy thee" "0 < hzed thee"
    unfolding h using n by (simp_all only: divide_pos_pos)
qed

lemma VSQR_mono: "0 \<le> x \<Longrightarrow> x \<le> y \<Longrightarrow> VSQR x \<le> VSQR y"
  unfolding VSQR_def by (rule mult_mono) simp_all

lemma twin_ivdwAccExclus:
  assumes c: "Vacc_ctor2 vlarge [a, a] max_rad nx0 ny0 nz0 nsphere0 = Inr thee"
    and R: "0 < radius a" and r: "0 \<le> srad" "srad \<le> max_rad"
    and on: "\<not> off_grid thee p" and i: "i = 0 \<or> i = 1"
  shows "ivdwAccExclus thee p srad i =
     Inr (if dist2 (position a) p < VSQR (radius a + srad) then 0 else 1)"
proof -
  note wf = Vacc_ctor2_wf[OF c]
  note f = Vacc_ctor2_fields[OF c]
  note w = wf_cell[OF wf on]
  let ?ui = "cell_ui thee p"
  let ?b = "atomIDs thee ! nat ?ui"
  have at: "alist thee ! nat k = a" if "k = 0 \<or> k = 1" for k :: int
    using that unfolding f(1) by auto
  have mem: "k = 0 \<or> k = 1" if "k \<in> set ?b" for k
  proof -
    have "0 \<le> k \<and> k < int (length (alist thee))" using w(5) that by blast
    then show ?thesis unfolding f(1) by auto
  qed
  have ov: "ivdw_overlap thee p srad i k \<longleftrightarrow>
      k \<noteq> i \<and> dist2 (position a) p < VSQR (radius a + srad)" if "k \<in> set ?b" for k
    unfolding ivdw_overlap_def using at[OF mem[OF that]] R by simp
  have m: "\<not> srad > max_radius thee" using r(2) f(6) by simp
  show ?thesis
  proof (cases "dist2 (position a) p < VSQR (radius a + srad)")
    case False
    then have "\<not> (\<exists>k\<in>set ?b. ivdw_overlap thee p srad i k)" using ov by blast
    then show ?thesis using False m on unfolding ivdwAccExclus_char[OF wf] by simp
  next
    case True
    let ?j = "1 - i"
    have j: "?j = 0 \<or> ?j = 1" "?j \<noteq> i" using i by auto
    have "VSQR (radius a + srad) \<le> VSQR (radius a + max_rad)"
      using R r by (intro VSQR_mono) simp_all
    then have d: "dist2 (position a) p \<le> VSQR (radius a + max_radius thee)"
      using True f(6) by simp
    have "0 \<le> radius a + max_radius thee" using R r f(6) by simp
    from point_in_atom_cells[OF on twin_spacing[OF c R] this d]
    have cell: "?ui \<in> set (atom_cells (Vacc_grid thee) a)" using r by simp
    have u: "0 \<le> ?ui" "?ui < nx0 * ny0 * nz0" using on_grid_ui[OF on] f(2,3,4) by simp_all
    have nj: "nat ?j < length [a, a]" "[a, a] ! nat ?j = a" "int (nat ?j) = ?j" using j(1) by auto
    have "int (nat ?j) \<in> set ?b" using bucket_member[OF c u nj(1)] cell nj(2) by simp
    then have "?j \<in> set ?b" using nj(3) by simp
    then have "\<exists>k\<in>set ?b. ivdw_overlap thee p srad i k" using ov j(2) True by blast
    then show ?thesis using True m on unfolding ivdwAccExclus_char[OF wf] by simp
  qed
qed

lemma twin_fields:
  "alist twin_vacc = [lone_atom, lone_atom]" "nx twin_vacc = 3" "ny twin_vacc = 3"
  "nz twin_vacc = 3" "max_radius twin_vacc = 20" "hx twin_vacc = 71" "hy twin_vacc = 71"
  "hzed twin_vacc = 71" "grid_lower_corner twin_vacc = (- 71, - 71, - 71)"
  "sphere twin_vacc = [(1, 0, 0), (0, 1, 0), (- 1, 0, 0), (0, - 1, 0)]"
  "nsphere twin_vacc = 4"
proof -
  note f = Vacc_ctor2_fields[OF twin_vacc_ctor]
  show "alist twin_vacc = [lone_atom, lone_atom]" "nx twin_vacc = 3" "ny twin_vacc = 3"
    "nz twin_vacc = 3" "max_radius twin_vacc = 20" using f by simp_all
  show "sphere twin_vacc = [(1, 0, 0), (0, 1, 0), (- 1, 0, 0), (0, - 1, 0)]"
    "nsphere twin_vacc = 4" using f(9,10) by (simp_all add: spec_sphere_4)
  have "Vacc_grid twin_vacc = Vacc_grid lone_vacc"
    unfolding f(7) Vacc_ctor2_fields(7)[OF lone_vacc_ctor] by (rule twin_grid)
  then have "g_hx (Vacc_grid twin_vacc) = 71" "g_hy (Vacc_grid twin_vacc) = 71"
    "g_hzed (Vacc_grid twin_vacc) = 71" "g_lower (Vacc_grid twin_vacc) = (- 71, - 71, - 71)"
    unfolding lone_grid by simp_all
  then show "hx twin_vacc = 71" "hy twin_vacc = 71" "hzed twin_vacc = 71"
    "grid_lower_corner twin_vacc = (- 71, - 71, - 71)"
    by (simp_all add: Vacc_grid_def)
qed

lemma twin_on_grid: "\<not> off_grid twin_vacc (10, 0, 0)"
proof -
  have "\<lfloor>(81::real) / 71\<rfloor> = 1" by (intro floor_unique) simp_all
  then have "centeri twin_vacc (10, 0, 0) = 1" "centerj twin_vacc (10, 0, 0) = 1"
    "centerk twin_vacc (10, 0, 0) = 1"
    by (simp_all add: centeri_def centerj_def centerk_def twin_fields int_of_double_def)
  then show ?thesis by (simp add: off_grid_def twin_fields)
qed

section \<open>The claims\<close>

text \<open>
  Claim C8. For a target count \<open>n\<close>, \<open>Vacc_sphere\<close> computes the number of rings
  \<open>ntheta = round (sqrt (pi * n / 4))\<close> and, for each ring \<open>i\<close> in \<open>[0, ntheta)\<close> with
  \<open>theta = i * pi / ntheta\<close>, places \<open>nphi = round (sin theta * 2 * ntheta)\<close> points
  \<open>(cos phi * sin theta, sin phi * sin theta, cos theta)\<close> evenly spaced in azimuth, a ring
  with \<open>nphi = 0\<close> contributing nothing. No write leaves the allocated array, the number
  returned is the number of points produced and the sum of the numbers of points of the
  rings, and every point is a unit vector. The result is this function of \<open>n\<close> alone, so
  two calls with the same \<open>n\<close> return the same number and the same sequence of points.
\<close>

theorem Vacc_sphere_generate:
  "0 \<le> n \<Longrightarrow>
   Vacc_sphere n = Inr (spec_sphere n, int (length (spec_sphere n))) \<and>
   int (length (spec_sphere n)) = sum_list (map (spec_nphi (spec_ntheta n)) [0..spec_ntheta n - 1]) \<and>
   (\<forall>p\<in>set (spec_sphere n). dist2 p (0, 0, 0) = 1)"
  using Vacc_sphere_spec spec_sphere_length spec_sphere_unit by blast

theorem Vacc_sphere_generate_witness:
  "(0::int) \<le> 4 \<and> Vacc_sphere 4 = Inr ([(1, 0, 0), (0, 1, 0), (- 1, 0, 0), (0, - 1, 0)], 4)"
  using Vacc_sphere_generate[of 4] by (simp add: spec_sphere_4)

text \<open>
  Claim C2, as amended. After \<open>Vacc_ctor2\<close> has constructed the grid from an atom list
  and a maximal probe radius, for every atom \<open>i\<close> and every grid cell \<open>(ii, jj, kk)\<close>: the
  atom is in the cell's bucket if and only if the cell's grid coordinates lie, on each
  axis, in the range of grid points the atom was assigned, from
  \<open>floor ((x - rtot) / h)\<close> to \<open>ceil ((x + rtot) / h)\<close> clamped to the grid, where
  \<open>rtot\<close> is the atom's radius plus the maximal probe radius. This range is a box of
  cells around the inflated sphere, so a bucket may hold an atom whose sphere does not
  meet the cell. Every point that the queries locate in a cell and that lies within
  \<open>rtot\<close> of the atom finds the atom in that cell's bucket (for positive grid spacings).
  Each bucket lists atom indices in strictly ascending order, and its size, like the
  counter \<open>natoms\<close>, is exactly what the first pass counted.
\<close>

theorem ctor2_bucket_invariant:
  assumes "Vacc_ctor2 vlarge al max_rad nx0 ny0 nz0 nsphere0 = Inr thee"
  shows
    "(\<forall>i<length al. \<forall>ii jj kk.
        0 \<le> ii \<and> ii < nx0 \<and> 0 \<le> jj \<and> jj < ny0 \<and> 0 \<le> kk \<and> kk < nz0 \<longrightarrow>
        (int i \<in> set (atomIDs thee ! nat (nz0 * ny0 * ii + nz0 * jj + kk)) \<longleftrightarrow>
           i_min (Vacc_grid thee) (al ! i) \<le> ii \<and> ii \<le> i_max (Vacc_grid thee) (al ! i) \<and>
           j_min (Vacc_grid thee) (al ! i) \<le> jj \<and> jj \<le> j_max (Vacc_grid thee) (al ! i) \<and>
           k_min (Vacc_grid thee) (al ! i) \<le> kk \<and> kk \<le> k_max (Vacc_grid thee) (al ! i))) \<and>
     (\<forall>i<length al. \<forall>p.
        \<not> off_grid thee p \<and> 0 < hx thee \<and> 0 < hy thee \<and> 0 < hzed thee \<and>
        0 \<le> radius (al ! i) + max_rad \<and>
        dist2 (position (al ! i)) p \<le> VSQR (radius (al ! i) + max_rad) \<longrightarrow>
        int i \<in> set (atomIDs thee ! nat (cell_ui thee p))) \<and>
     (\<forall>u<nat (nx0 * ny0 * nz0).
        sorted_wrt (<) (atomIDs thee ! u) \<and>
        (\<forall>a\<in>set (atomIDs thee ! u). 0 \<le> a \<and> a < int (length al))) \<and>
     (\<exists>cnts. count_pass (Vacc_grid thee) al (replicate (nat (nx0 * ny0 * nz0)) 0) = Inr cnts \<and>
        (\<forall>u<nat (nx0 * ny0 * nz0).
           int (length (atomIDs thee ! u)) = cnts ! u \<and> natoms thee ! u = cnts ! u))"
proof (intro conjI)
  note f = Vacc_ctor2_fields[OF assms]
  have g: "g_nx (Vacc_grid thee) = nx0" "g_ny (Vacc_grid thee) = ny0" "g_nz (Vacc_grid thee) = nz0"
    unfolding f(7) by simp_all
  show "\<forall>i<length al. \<forall>ii jj kk.
        0 \<le> ii \<and> ii < nx0 \<and> 0 \<le> jj \<and> jj < ny0 \<and> 0 \<le> kk \<and> kk < nz0 \<longrightarrow>
        (int i \<in> set (atomIDs thee ! nat (nz0 * ny0 * ii + nz0 * jj + kk)) \<longleftrightarrow>
           i_min (Vacc_grid thee) (al ! i) \<le> ii \<and> ii \<le> i_max (Vacc_grid thee) (al ! i) \<and>
           j_min (Vacc_grid thee) (al ! i) \<le> jj \<and> jj \<le> j_max (Vacc_grid thee) (al ! i) \<and>
           k_min (Vacc_grid thee) (al ! i) \<le> kk \<and> kk \<le> k_max (Vacc_grid thee) (al ! i))"
  proof (intro allI impI)
    fix i ii jj kk
    assume i: "i < length al"
      and c: "0 \<le> ii \<and> ii < nx0 \<and> 0 \<le> jj \<and> jj < ny0 \<and> 0 \<le> kk \<and> kk < nz0"
    have b: "0 \<le> ii" "ii \<le> nx0 - 1" "0 \<le> jj" "jj \<le> ny0 - 1" "0 \<le> kk" "kk \<le> nz0 - 1"
      using c by linarith+
    note u = cell_index_bounds[OF b]
    have "int i \<in> set (atomIDs thee ! nat (nz0 * ny0 * ii + nz0 * jj + kk)) \<longleftrightarrow>
        nz0 * ny0 * ii + nz0 * jj + kk \<in> set (atom_cells (Vacc_grid thee) (al ! i))"
      by (rule bucket_member[OF assms u i])
    also have "\<dots> \<longleftrightarrow>
           i_min (Vacc_grid thee) (al ! i) \<le> ii \<and> ii \<le> i_max (Vacc_grid thee) (al ! i) \<and>
           j_min (Vacc_grid thee) (al ! i) \<le> jj \<and> jj \<le> j_max (Vacc_grid thee) (al ! i) \<and>
           k_min (Vacc_grid thee) (al ! i) \<le> kk \<and> kk \<le> k_max (Vacc_grid thee) (al ! i)"
      using atom_cells_cell_iff[of jj "Vacc_grid thee" kk ii "al ! i"] c unfolding g by simp
    finally show "int i \<in> set (atomIDs thee ! nat (nz0 * ny0 * ii + nz0 * jj + kk)) \<longleftrightarrow>
           i_min (Vacc_grid thee) (al ! i) \<le> ii \<and> ii \<le> i_max (Vacc_grid thee) (al ! i) \<and>
           j_min (Vacc_grid thee) (al ! i) \<le> jj \<and> jj \<le> j_max (Vacc_grid thee) (al ! i) \<and>
           k_min (Vacc_grid thee) (al ! i) \<le> kk \<and> kk \<le> k_max (Vacc_grid thee) (al ! i)" .
  qed
  show "\<forall>i<length al. \<forall>p.
        \<not> off_grid thee p \<and> 0 < hx thee \<and> 0 < hy thee \<and> 0 < hzed thee \<and>
        0 \<le> radius (al ! i) + max_rad \<and>
        dist2 (position (al ! i)) p \<le> VSQR (radius (al ! i) + max_rad) \<longrightarrow>
        int i \<in> set (atomIDs thee ! nat (cell_ui thee p))"
  proof (intro allI impI)
    fix i p
    assume i: "i < length al"
      and h: "\<not> off_grid thee p \<and> 0 < hx thee \<and> 0 < hy thee \<and> 0 < hzed thee \<and>
        0 \<le> radius (al ! i) + max_rad \<and>
        dist2 (position (al ! i)) p \<le> VSQR (radius (al ! i) + max_rad)"
    have u: "0 \<le> cell_ui thee p" "cell_ui thee p < nx0 * ny0 * nz0"
      using on_grid_ui[of thee p] h unfolding f by simp_all
    have "cell_ui thee p \<in> set (atom_cells (Vacc_grid thee) (al ! i))"
      using h by (intro point_in_atom_cells) (simp_all add: f)
    then show "int i \<in> set (atomIDs thee ! nat (cell_ui thee p))"
      using bucket_member[OF assms u i] by simp
  qed
  show "\<forall>u<nat (nx0 * ny0 * nz0).
        sorted_wrt (<) (atomIDs thee ! u) \<and>
        (\<forall>a\<in>set (atomIDs thee ! u). 0 \<le> a \<and> a < int (length al))"
    using Vacc_ctor2_buckets(3)[OF assms] by (auto simp: cell_atoms_sorted cell_atoms_set)
  show "\<exists>cnts. count_pass (Vacc_grid thee) al (replicate (nat (nx0 * ny0 * nz0)) 0) = Inr cnts \<and>
        (\<forall>u<nat (nx0 * ny0 * nz0).
           int (length (atomIDs thee ! u)) = cnts ! u \<and> natoms thee ! u = cnts ! u)"
    using Vacc_ctor2_buckets(4,5)[OF assms] by auto
qed

theorem ctor2_bucket_invariant_witness:
  "Vacc_ctor2 (10 ^ 9) [lone_atom] 20 3 3 3 4 = Inr lone_vacc \<and>
   0 \<in> set (atomIDs lone_vacc ! 13) \<and> sorted_wrt (<) (atomIDs lone_vacc ! 13)"
proof -
  note t = ctor2_bucket_invariant[OF lone_vacc_ctor]
  have "0 \<in> set (atomIDs lone_vacc ! 13)"
    using t[THEN conjunct1, rule_format, of 0 1 1 1] by (simp add: lone_ranges)
  moreover have "sorted_wrt (<) (atomIDs lone_vacc ! 13)"
    using t[THEN conjunct2, THEN conjunct2, THEN conjunct1, rule_format, of 13] by simp
  ultimately show ?thesis using lone_vacc_ctor by simp
qed

text \<open>
  Claim C2 as stated fails: for a single atom of radius 30 at the origin and maximal probe
  radius 20, on a grid of
  3 x 3 x 3 cells of spacing 71 with lower corner \<open>(-71, -71, -71)\<close>, the atom is in the
  bucket of the corner cell \<open>(2, 2, 2)\<close>, whose box starts at 71 on every axis and so does
  not meet the sphere.
\<close>

theorem bucket_iff_sphere_counterexample:
  "Vacc_ctor2 (10 ^ 9) [lone_atom] 20 3 3 3 4 = Inr lone_vacc \<and>
   0 \<in> set (atomIDs lone_vacc ! 26) \<and>
   \<not> spec_sphere_meets_cell (Vacc_grid lone_vacc) lone_atom 2 2 2"
proof -
  have g: "g_ny (Vacc_grid lone_vacc) = 3" "g_nz (Vacc_grid lone_vacc) = 3"
    unfolding lone_grid by simp_all
  have "g_nz (Vacc_grid lone_vacc) * g_ny (Vacc_grid lone_vacc) * 2
      + g_nz (Vacc_grid lone_vacc) * 2 + 2 \<in> set (atom_cells (Vacc_grid lone_vacc) lone_atom)"
    by (subst atom_cells_cell_iff) (simp_all add: g lone_ranges)
  then have "26 \<in> set (atom_cells (Vacc_grid lone_vacc) ([lone_atom] ! 0))" by (simp add: g)
  then have "int 0 \<in> set (atomIDs lone_vacc ! nat 26)"
    by (subst bucket_member[OF lone_vacc_ctor]) simp_all
  moreover have "\<not> spec_sphere_meets_cell (Vacc_grid lone_vacc) lone_atom 2 2 2"
    unfolding lone_grid by (simp add: spec_sphere_meets_cell_def axis_gap_def lone_atom_def VSQR_def)
  ultimately show ?thesis using lone_vacc_ctor by simp
qed


text \<open>
  Claim C7. On a constructed structure, the inflated test \<open>Vacc_ivdwAcc\<close> (and
  \<open>ivdwAccExclus\<close> behind it) fails if and only if the probe radius of the query exceeds
  the maximal probe radius fixed at construction, and then by the assertion; for every
  probe radius up to the maximal one it returns normally, with the value 0 or 1.
\<close>

theorem ivdwAcc_precondition:
  assumes "Vacc_wf thee"
  shows "((\<exists>e. Vacc_ivdwAcc thee center rad = Inl e) \<longleftrightarrow> rad > max_radius thee) \<and>
     (rad > max_radius thee \<longrightarrow>
        Vacc_ivdwAcc thee center rad = Inl AssertionFailure \<and>
        ivdwAccExclus thee center rad atomID = Inl AssertionFailure) \<and>
     (rad \<le> max_radius thee \<longrightarrow>
        (Vacc_ivdwAcc thee center rad = Inr 0 \<or> Vacc_ivdwAcc thee center rad = Inr 1) \<and>
        (ivdwAccExclus thee center rad atomID = Inr 0 \<or>
         ivdwAccExclus thee center rad atomID = Inr 1))"
  unfolding Vacc_ivdwAcc_char[OF assms] ivdwAccExclus_char[OF assms] by auto

theorem ivdwAcc_precondition_witness:
  "Vacc_wf lone_vacc \<and> Vacc_ivdwAcc lone_vacc (40, 0, 0) 20 = Inr 0 \<and>
   Vacc_ivdwAcc lone_vacc (40, 0, 0) 21 = Inl AssertionFailure"
proof -
  have "Vacc_ivdwAcc lone_vacc (40, 0, 0) 21 = Inl AssertionFailure"
    using ivdwAcc_precondition[OF lone_wf, of "(40, 0, 0)" 21 "- 1"] by (simp add: lone_fields)
  moreover have "Vacc_ivdwAcc lone_vacc (40, 0, 0) 20 = Inr 0"
    using ivdwAcc_precondition[OF lone_wf, of "(40, 0, 0)" 20 "- 1"] lone_ivdwAcc[of 40 20]
    by (simp add: lone_fields)
  ultimately show ?thesis using lone_wf by simp
qed


text \<open>
  Claim C6. For a fixed atom set and point, and probe radii \<open>0 \<le> r' < r\<close> up to the maximal
  probe radius: if the inflated test finds the point accessible with \<open>r\<close>, it finds it
  accessible with \<open>r'\<close>.
\<close>

theorem ivdwAcc_monotone:
  assumes "Vacc_wf thee" "0 \<le> r'" "r' < r" "r \<le> max_radius thee"
    and "Vacc_ivdwAcc thee p r = Inr 1"
  shows "Vacc_ivdwAcc thee p r' = Inr 1"
proof -
  have sq: "VSQR (ra + r') \<le> VSQR (ra + r)" if "0 < ra" for ra
    unfolding VSQR_def using that assms(2,3) by (intro mult_mono) simp_all
  have "ivdw_overlap thee p r (- 1) a" if "ivdw_overlap thee p r' (- 1) a" for a
    using that sq[of "radius (alist thee ! nat a)"] unfolding ivdw_overlap_def by auto
  then show ?thesis
    using assms unfolding Vacc_ivdwAcc_char[OF assms(1)] by (auto split: if_splits)
qed

theorem ivdwAcc_monotone_witness:
  "Vacc_wf lone_vacc \<and> (0::real) \<le> 10 \<and> (10::real) < 20 \<and> 20 \<le> max_radius lone_vacc \<and>
   Vacc_ivdwAcc lone_vacc (60, 0, 0) 20 = Inr 1 \<and> Vacc_ivdwAcc lone_vacc (60, 0, 0) 10 = Inr 1"
proof -
  have a: "Vacc_ivdwAcc lone_vacc (60, 0, 0) 20 = Inr 1" using lone_ivdwAcc[of 60 20] by simp
  have m: "20 \<le> max_radius lone_vacc" by (simp add: lone_fields)
  have "Vacc_ivdwAcc lone_vacc (60, 0, 0) 10 = Inr 1"
    by (rule ivdwAcc_monotone[OF lone_wf _ _ m a]) simp_all
  then show ?thesis using a m lone_wf by simp
qed


text \<open>
  Claim C5. At every point where the hard-sphere test returns 1 and the inflated test with
  probe radius \<open>r\<close> returns 0 (the ambiguous annulus), \<open>Vacc_molAcc\<close> and
  \<open>Vacc_fastMolAcc\<close> return the same value, a 0 or a 1.
\<close>

theorem molAcc_fastMolAcc_agree:
  assumes "Vacc_wf thee" "rad \<le> max_radius thee"
    and "Vacc_vdwAcc thee p = Inr 1" "Vacc_ivdwAcc thee p rad = Inr 0"
  shows "Vacc_molAcc thee p rad = Vacc_fastMolAcc thee p rad \<and>
     (Vacc_molAcc thee p rad = Inr 0 \<or> Vacc_molAcc thee p rad = Inr 1)"
proof -
  have "Vacc_molAcc thee p rad = Vacc_fastMolAcc thee p rad"
    using assms(3,4) by (simp add: Vacc_molAcc_def Vacc_fastMolAcc_def molAcc_loop_fast)
  then show ?thesis unfolding Vacc_fastMolAcc_char[OF assms(1,2)] by simp
qed

theorem molAcc_fastMolAcc_agree_witness:
  "Vacc_wf lone_vacc \<and> 20 \<le> max_radius lone_vacc \<and>
   Vacc_vdwAcc lone_vacc (40, 0, 0) = Inr 1 \<and> Vacc_ivdwAcc lone_vacc (40, 0, 0) 20 = Inr 0 \<and>
   Vacc_molAcc lone_vacc (40, 0, 0) 20 = Vacc_fastMolAcc lone_vacc (40, 0, 0) 20"
proof -
  have a: "Vacc_vdwAcc lone_vacc (40, 0, 0) = Inr 1" using lone_vdwAcc[of 40] by simp
  have b: "Vacc_ivdwAcc lone_vacc (40, 0, 0) 20 = Inr 0" using lone_ivdwAcc[of 40 20] by simp
  have m: "20 \<le> max_radius lone_vacc" by (simp add: lone_fields)
  show ?thesis using molAcc_fastMolAcc_agree[OF lone_wf m a b] a b m lone_wf by simp
qed


text \<open>
  Claim C3. For every point whose cell coordinates fall outside the grid,
  \<open>Vacc_vdwAcc\<close> returns 1 and, for every probe radius up to the maximal one,
  \<open>Vacc_ivdwAcc\<close> and \<open>Vacc_molAcc\<close> return 1, whatever the atoms. \<open>Vacc_fastMolAcc\<close> has
  no test of its own for such a point: it samples the quadrature sphere around the point,
  one of the sample points is off the grid as well, and so it returns 1 too. This last
  part is for a constructed structure with positive grid spacings, a probe radius between
  0 and the maximal one and a quadrature sphere with at least one point.
\<close>

theorem off_grid_accessible:
  "(off_grid thee p \<longrightarrow> Vacc_vdwAcc thee p = Inr 1) \<and>
   (off_grid thee p \<and> rad \<le> max_radius thee \<longrightarrow>
      Vacc_ivdwAcc thee p rad = Inr 1 \<and> Vacc_molAcc thee p rad = Inr 1) \<and>
   (Vacc_ctor2 vlarge al max_rad nx0 ny0 nz0 nsphere0 = Inr thee \<and>
    0 < hx thee \<and> 0 < hy thee \<and> 0 < hzed thee \<and> 0 \<le> rad \<and> rad \<le> max_rad \<and>
    sphere thee \<noteq> [] \<and> off_grid thee p \<longrightarrow>
      Vacc_fastMolAcc thee p rad = Inr 1)"
  using off_grid_vdwAcc off_grid_ivdwAcc off_grid_molAcc fastMolAcc_off_grid by blast

theorem off_grid_accessible_witness:
  "off_grid lone_vacc (200, 0, 0) \<and> 20 \<le> max_radius lone_vacc \<and>
   Vacc_ctor2 (10 ^ 9) [lone_atom] 20 3 3 3 4 = Inr lone_vacc \<and>
   0 < hx lone_vacc \<and> 0 < hy lone_vacc \<and> 0 < hzed lone_vacc \<and>
   sphere lone_vacc \<noteq> [] \<and>
   Vacc_vdwAcc lone_vacc (200, 0, 0) = Inr 1 \<and>
   Vacc_ivdwAcc lone_vacc (200, 0, 0) 20 = Inr 1 \<and>
   Vacc_molAcc lone_vacc (200, 0, 0) 20 = Inr 1 \<and>
   Vacc_fastMolAcc lone_vacc (200, 0, 0) 20 = Inr 1"
  using off_grid_accessible[of lone_vacc "(200, 0, 0)" 20 "10 ^ 9" "[lone_atom]" 20 3 3 3 4]
    lone_off_grid lone_vacc_ctor
  by (simp add: lone_fields)







text \<open>
  Claim C1, as amended. With \<open>a = atomRadius + probeRadius\<close>, a window \<open>w > 0\<close>, a probe
  radius at least 0 and \<open>d\<close> the distance from the point to the centre of the atom, the
  factor \<open>Vacc_splineAccAtom\<close> gives for an atom of radius above 1 is 0 when \<open>d \<le> a - w\<close>
  and also when \<open>d = 0\<close> (the lower end of the window is clamped at 0, so at the centre
  itself the factor is 0 even if \<open>a < w\<close>); it is
  \<open>0.75 s^2 / w^2 - 0.25 s^3 / w^3\<close> with \<open>s = d - a + w\<close> when \<open>0 < d\<close> and
  \<open>a - w < d < a + w\<close>; and it is 1 when \<open>d \<ge> a + w\<close>. An atom of radius 0 contributes the
  factor 1. So the factor at distance exactly \<open>a - w\<close> is 0, at \<open>a + w\<close> it is 1, and it
  lies between 0 and 1 and does not decrease as the distance grows. (Atoms whose radius is
  positive but at most 1 are the subject of claim C9.)
\<close>

theorem splineAccAtom_window:
  assumes "Valist_getAtom (alist thee) atomID = Inr atom" and "0 < win" and "0 \<le> infrad"
  shows
    "(1 < radius atom \<and> sqrt (dist2 (position atom) center) \<le> radius atom + infrad - win \<longrightarrow>
        Vacc_splineAccAtom thee center win infrad atomID = Inr 0) \<and>
     (1 < radius atom \<and> sqrt (dist2 (position atom) center) = 0 \<longrightarrow>
        Vacc_splineAccAtom thee center win infrad atomID = Inr 0) \<and>
     (1 < radius atom \<and> 0 < sqrt (dist2 (position atom) center) \<and>
      radius atom + infrad - win < sqrt (dist2 (position atom) center) \<and>
      sqrt (dist2 (position atom) center) < radius atom + infrad + win \<longrightarrow>
        Vacc_splineAccAtom thee center win infrad atomID =
          Inr (0.75 * (sqrt (dist2 (position atom) center) - (radius atom + infrad) + win)\<^sup>2 / win\<^sup>2
               - 0.25 * (sqrt (dist2 (position atom) center) - (radius atom + infrad) + win) ^ 3 / win ^ 3)) \<and>
     (1 < radius atom \<and> radius atom + infrad + win \<le> sqrt (dist2 (position atom) center) \<longrightarrow>
        Vacc_splineAccAtom thee center win infrad atomID = Inr 1) \<and>
     (radius atom = 0 \<longrightarrow> Vacc_splineAccAtom thee center win infrad atomID = Inr 1) \<and>
     (1 < radius atom \<and>
      sqrt (dist2 (position atom) center) \<le> sqrt (dist2 (position atom) center') \<longrightarrow>
        (\<exists>v v'. Vacc_splineAccAtom thee center win infrad atomID = Inr v \<and>
                Vacc_splineAccAtom thee center' win infrad atomID = Inr v' \<and>
                0 \<le> v \<and> v \<le> v' \<and> v' \<le> 1))"
proof (intro conjI impI)
  let ?d = "sqrt (dist2 (position atom) center)"
  let ?a = "radius atom + infrad"
  note big = splineAccAtom_big[OF assms(1)]
  have d0: "0 \<le> sqrt (dist2 (position atom) c)" for c by (simp add: dist2_nonneg)
  show "Vacc_splineAccAtom thee center win infrad atomID = Inr 0"
    if "1 < radius atom \<and> ?d \<le> ?a - win"
    using that big[of center win infrad] window_value_lo[OF d0[of center], of ?a win] by simp
  show "Vacc_splineAccAtom thee center win infrad atomID = Inr 0"
    if "1 < radius atom \<and> ?d = 0"
    using that big[of center win infrad] window_value_zero[of ?a win] by simp
  show "Vacc_splineAccAtom thee center win infrad atomID =
          Inr (0.75 * (?d - ?a + win)\<^sup>2 / win\<^sup>2 - 0.25 * (?d - ?a + win) ^ 3 / win ^ 3)"
    if "1 < radius atom \<and> 0 < ?d \<and> ?a - win < ?d \<and> ?d < ?a + win"
    using that big[of center win infrad] window_value_mid(2)[OF assms(2), of ?d ?a] by simp
  show "Vacc_splineAccAtom thee center win infrad atomID = Inr 1"
    if "1 < radius atom \<and> ?a + win \<le> ?d"
    using that assms(2,3) big[of center win infrad] window_value_hi[of win ?a ?d] by simp
  show "Vacc_splineAccAtom thee center win infrad atomID = Inr 1" if "radius atom = 0"
    using that splineAccAtom_small[OF assms(1)] by simp
  show "\<exists>v v'. Vacc_splineAccAtom thee center win infrad atomID = Inr v \<and>
                Vacc_splineAccAtom thee center' win infrad atomID = Inr v' \<and>
                0 \<le> v \<and> v \<le> v' \<and> v' \<le> 1"
    if "1 < radius atom \<and> ?d \<le> sqrt (dist2 (position atom) center')"
    using that big window_value_mono[OF assms(2) d0[of center], of "sqrt (dist2 (position atom) center')" ?a]
      window_value_range[OF assms(2) d0[of center], of ?a]
      window_value_range[OF assms(2) d0[of center'], of ?a]
    by simp
qed

theorem splineAccAtom_window_witness:
  "Valist_getAtom (alist lone_vacc) 0 = Inr lone_atom \<and> (0::real) < 10 \<and> (0::real) \<le> 0 \<and>
   1 < radius lone_atom \<and>
   Vacc_splineAccAtom lone_vacc (30, 0, 0) 10 0 0 = Inr (1 / 2) \<and>
   Vacc_splineAccAtom lone_vacc (20, 0, 0) 10 0 0 = Inr 0 \<and>
   Vacc_splineAccAtom lone_vacc (40, 0, 0) 10 0 0 = Inr 1"
proof -
  have p: "position lone_atom = (0, 0, 0)" "radius lone_atom = 30" by (simp_all add: lone_atom_def)
  note t = splineAccAtom_window[OF lone_getAtom, of 10 0]
  have "Vacc_splineAccAtom lone_vacc (30, 0, 0) 10 0 0 = Inr (1 / 2)"
    using t[of "(30, 0, 0)"] by (simp add: p power2_eq_square power3_eq_cube)
  moreover have "Vacc_splineAccAtom lone_vacc (20, 0, 0) 10 0 0 = Inr 0"
    using t[of "(20, 0, 0)"] by (simp add: p)
  moreover have "Vacc_splineAccAtom lone_vacc (40, 0, 0) 10 0 0 = Inr 1"
    using t[of "(40, 0, 0)"] by (simp add: p)
  ultimately show ?thesis using lone_getAtom by (simp add: p)
qed


text \<open>
  Claim C1 as stated fails at the centre of an atom narrower than the window: for radius
  2, probe radius 0 and window 3 the distance 0 lies strictly between \<open>a - w = -1\<close> and
  \<open>a + w = 5\<close>, where the claim gives the cubic's value \<open>2/27\<close>, and the factor is 0.
\<close>

theorem splineAccAtom_centre_counterexample:
  "Valist_getAtom (alist duo_vacc) 0 = Inr \<lparr> position = (0, 0, 0), radius = 2 \<rparr> \<and>
   sqrt (dist2 (0, 0, 0) (0, 0, 0)) = 0 \<and>
   (2::real) + 0 - 3 < 0 \<and> (0::real) < 2 + 0 + 3 \<and>
   0.75 * (0 - (2 + 0) + 3)\<^sup>2 / 3\<^sup>2 - 0.25 * (0 - (2 + 0) + 3) ^ 3 / 3 ^ 3 = (2 / 27 :: real) \<and>
   Vacc_splineAccAtom duo_vacc (0, 0, 0) 3 0 0 = Inr 0"
proof -
  have "Vacc_splineAccAtom duo_vacc (0, 0, 0) 3 0 0 = Inr 0"
    unfolding splineAccAtom_big[OF duo_getAtom(1), simplified]
    by (simp add: window_value_def VMAX2r_def)
  then show ?thesis using duo_getAtom(1) by (simp add: power2_eq_square power3_eq_cube)
qed





text \<open>
  Claim C10, as amended. On a constructed structure, \<open>Vacc_splineAcc\<close> with window \<open>w\<close> and
  inflation radius \<open>infrad\<close> fails by its assertion if and only if the maximal probe
  radius is below \<open>w + infrad\<close>. Otherwise, provided every atom identifier in the bucket of
  the point's cell is an index of the array of flags (which has one entry per grid cell),
  it returns normally: 1 for a point off the grid, and else the product of the per-atom
  factors over the atoms of the bucket, each counted once, taken in the order of the
  bucket and abandoned as soon as it falls below \<open>VSMALL\<close>, when the product so far is
  returned. The value returned is the product over all distinct atoms of the bucket
  whenever it is at least \<open>VSMALL\<close> or is 0.
\<close>

theorem Vacc_splineAcc_product:
  assumes "Vacc_wf thee"
    and "\<not> off_grid thee center \<longrightarrow>
       (\<forall>a\<in>set (atomIDs thee ! nat (cell_ui thee center)). a < int (length (atomFlags thee)))"
  shows
    "((\<exists>e. Vacc_splineAcc vsmall thee center win infrad = Inl e) \<longleftrightarrow>
        max_radius thee < win + infrad) \<and>
     (max_radius thee < win + infrad \<longrightarrow>
        Vacc_splineAcc vsmall thee center win infrad = Inl AssertionFailure) \<and>
     (win + infrad \<le> max_radius thee \<and> off_grid thee center \<longrightarrow>
        Vacc_splineAcc vsmall thee center win infrad = Inr (1, thee)) \<and>
     (win + infrad \<le> max_radius thee \<and> \<not> off_grid thee center \<longrightarrow>
        (\<exists>flags'. Vacc_splineAcc vsmall thee center win infrad =
           Inr (running_product vsmall 1
                  (map (atom_factor thee center win infrad)
                     (first_occurrences [] (atomIDs thee ! nat (cell_ui thee center)))),
                thee\<lparr>atomFlags := flags'\<rparr>)) \<and>
        (vsmall \<le> running_product vsmall 1
                  (map (atom_factor thee center win infrad)
                     (first_occurrences [] (atomIDs thee ! nat (cell_ui thee center)))) \<or>
         running_product vsmall 1
                  (map (atom_factor thee center win infrad)
                     (first_occurrences [] (atomIDs thee ! nat (cell_ui thee center)))) = 0 \<longrightarrow>
         running_product vsmall 1
                  (map (atom_factor thee center win infrad)
                     (first_occurrences [] (atomIDs thee ! nat (cell_ui thee center)))) =
         prod_list (map (atom_factor thee center win infrad)
                     (first_occurrences [] (atomIDs thee ! nat (cell_ui thee center))))))"
proof -
  let ?fs = "map (atom_factor thee center win infrad)
                     (first_occurrences [] (atomIDs thee ! nat (cell_ui thee center)))"
  have bad: "Vacc_splineAcc vsmall thee center win infrad = Inl AssertionFailure"
    if "max_radius thee < win + infrad"
    using that unfolding Vacc_splineAcc_def by simp
  have off: "Vacc_splineAcc vsmall thee center win infrad = Inr (1, thee)"
    if "win + infrad \<le> max_radius thee" "off_grid thee center"
    using that unfolding Vacc_splineAcc_def by simp
  have on: "\<exists>flags'. Vacc_splineAcc vsmall thee center win infrad =
           Inr (running_product vsmall 1 ?fs, thee\<lparr>atomFlags := flags'\<rparr>)"
    if "win + infrad \<le> max_radius thee" "\<not> off_grid thee center"
    using Vacc_splineAcc_char[OF assms(1) that] assms(2) that(2) by blast
  have full: "running_product vsmall 1 ?fs = prod_list ?fs"
    if "vsmall \<le> running_product vsmall 1 ?fs \<or> running_product vsmall 1 ?fs = 0"
    using that running_product_partial[of vsmall 1 ?fs] running_product_zero[of vsmall 1 ?fs]
    by auto
  have "(\<exists>e. Vacc_splineAcc vsmall thee center win infrad = Inl e) \<longleftrightarrow>
        max_radius thee < win + infrad"
  proof (cases "max_radius thee < win + infrad")
    case True
    then show ?thesis using bad by simp
  next
    case False
    then have ok: "win + infrad \<le> max_radius thee" by simp
    show ?thesis using False off[OF ok] on[OF ok] by (cases "off_grid thee center") auto
  qed
  then show ?thesis using bad off on full by blast
qed

theorem Vacc_splineAcc_product_witness:
  "Vacc_wf duo_vacc \<and>
   atomIDs duo_vacc ! nat (cell_ui duo_vacc (5 / 4, 0, 0)) = [0, 1] \<and>
   length (atomFlags duo_vacc) = 27 \<and>
   1 + 0 \<le> max_radius duo_vacc \<and> \<not> off_grid duo_vacc (5 / 4, 0, 0) \<and>
   map_sum id fst (Vacc_splineAcc (1 / 10 ^ 9) duo_vacc (5 / 4, 0, 0) 1 0) = Inr (891 / 65536) \<and>
   Vacc_splineAcc (1 / 10 ^ 9) duo_vacc (5 / 4, 0, 0) 1 4 = Inl AssertionFailure"
proof -
  have x: "(0::real) \<le> 5 / 4" "(5::real) / 4 < 3 / 2" by simp_all
  note c = duo_cell_x[OF x]
  note t = Vacc_splineAcc_product[OF duo_wf duo_flags[OF x]]
  have m: "1 + 0 \<le> max_radius duo_vacc" by (simp add: duo_fields)
  obtain flags' where "Vacc_splineAcc (1 / 10 ^ 9) duo_vacc (5 / 4, 0, 0) 1 0 =
      Inr (running_product (1 / 10 ^ 9) 1
             (map (atom_factor duo_vacc (5 / 4, 0, 0) 1 0)
                (first_occurrences [] (atomIDs duo_vacc ! nat (cell_ui duo_vacc (5 / 4, 0, 0))))),
           duo_vacc\<lparr>atomFlags := flags'\<rparr>)"
    using t[of "1 / 10 ^ 9" 1 0] m c(1) by blast
  then have "map_sum id fst (Vacc_splineAcc (1 / 10 ^ 9) duo_vacc (5 / 4, 0, 0) 1 0) = Inr (891 / 65536)"
    by (simp add: c duo_bucket_4 duo_factors_witness Let_def)
  moreover have "Vacc_splineAcc (1 / 10 ^ 9) duo_vacc (5 / 4, 0, 0) 1 4 = Inl AssertionFailure"
    using t[of "1 / 10 ^ 9" 1 4] by (simp add: duo_fields)
  ultimately show ?thesis using duo_wf m c by (simp add: duo_bucket_4 duo_fields)
qed


text \<open>
  Claim C10 as stated fails when the product is abandoned: with \<open>VSMALL = 1e-9\<close>, two atoms
  of radius 2 at \<open>(0, 0, 0)\<close> and \<open>(3, 0, 0)\<close>, window 1 and inflation radius 0, the point
  \<open>(1.00001, 0, 0)\<close> has the factors \<open>299999 / (4 * 10^15)\<close> and
  \<open>1999970000000001 / (4 * 10^15)\<close>; the first is below \<open>VSMALL\<close> and is what is returned,
  not the product of the two.
\<close>

theorem splineAcc_short_circuit_counterexample:
  "Vacc_ctor2 (10 ^ 9) duo_atoms 3 3 3 3 4 = Inr duo_vacc \<and>
   1 + 0 \<le> max_radius duo_vacc \<and> \<not> off_grid duo_vacc (100001 / 100000, 0, 0) \<and>
   atomIDs duo_vacc ! nat (cell_ui duo_vacc (100001 / 100000, 0, 0)) = [0, 1] \<and>
   Vacc_splineAccAtom duo_vacc (100001 / 100000, 0, 0) 1 0 0 = Inr (299999 / 4000000000000000) \<and>
   Vacc_splineAccAtom duo_vacc (100001 / 100000, 0, 0) 1 0 1 =
     Inr (1999970000000001 / 4000000000000000) \<and>
   map_sum id fst (Vacc_splineAcc (1 / 10 ^ 9) duo_vacc (100001 / 100000, 0, 0) 1 0) =
     Inr (299999 / 4000000000000000) \<and>
   (299999 / 4000000000000000 :: real) \<noteq>
     299999 / 4000000000000000 * (1999970000000001 / 4000000000000000)"
proof -
  have x: "(0::real) \<le> 100001 / 100000" "(100001::real) / 100000 < 3 / 2" by simp_all
  note c = duo_cell_x[OF x]
  have m: "1 + 0 \<le> max_radius duo_vacc" by (simp add: duo_fields)
  have fl: "\<forall>a\<in>set (atomIDs duo_vacc ! nat (cell_ui duo_vacc (100001 / 100000, 0, 0))).
      a < int (length (atomFlags duo_vacc))"
    using duo_flags[OF x] c(1) by blast
  obtain flags' where "Vacc_splineAcc (1 / 10 ^ 9) duo_vacc (100001 / 100000, 0, 0) 1 0 =
      Inr (running_product (1 / 10 ^ 9) 1
             (map (atom_factor duo_vacc (100001 / 100000, 0, 0) 1 0)
                (first_occurrences []
                   (atomIDs duo_vacc ! nat (cell_ui duo_vacc (100001 / 100000, 0, 0))))),
           duo_vacc\<lparr>atomFlags := flags'\<rparr>)"
    using Vacc_splineAcc_char[OF duo_wf m c(1) fl] by blast
  then have v: "map_sum id fst (Vacc_splineAcc (1 / 10 ^ 9) duo_vacc (100001 / 100000, 0, 0) 1 0) =
     Inr (299999 / 4000000000000000)"
    by (simp add: c duo_bucket_4 duo_factors_small Let_def)
  have a: "Vacc_splineAccAtom duo_vacc (100001 / 100000, 0, 0) 1 0 0 = Inr (299999 / 4000000000000000)"
    "Vacc_splineAccAtom duo_vacc (100001 / 100000, 0, 0) 1 0 1 =
     Inr (1999970000000001 / 4000000000000000)"
    by (simp_all add: splineAccAtom_factor duo_fields duo_atoms_def duo_factors_small)
  show ?thesis using duo_vacc_ctor m c v a by (simp add: duo_bucket_4)
qed


end
